theory Spec2Isabelle
  imports Main "HOL-Library.AList" "HOL-Library.Sublist" "HOL-Library.Char_ord"
    "HOL-Library.List_Lexorder"
begin

section \<open>Python values used by \<^verbatim>\<open>backend.py\<close>\<close>

text \<open>
  Strings are Python \<^verbatim>\<open>str\<close> values over the code points below 256, which is what
  \<^typ>\<open>char\<close> holds; text outside that range is outside this development. Exceptions are
  values: a function that can raise returns \<open>py_error + 'a\<close>, with \<open>Inl\<close> the exception.
  \<open>NotModelled\<close> is not a Python exception: the concrete regular-expression model below
  returns it for a pattern that uses syntax it does not cover, so that nothing is said
  about such a pattern.
\<close>

datatype py_error =
  ReError | IndexError | KeyError | ValueError | TypeError | AttributeError | NotModelled

definition newline :: char where
  "newline = char_of (10 :: nat)"

definition lower_char :: "char \<Rightarrow> char" where
  "lower_char c =
     (let n = (of_char c :: nat)
      in if (65 \<le> n \<and> n \<le> 90) \<or> (192 \<le> n \<and> n \<le> 222 \<and> n \<noteq> 215)
         then char_of (n + 32) else c)"

definition lower :: "string \<Rightarrow> string" where
  \<comment> \<open>\<^verbatim>\<open>str.lower()\<close>\<close>
  "lower s = map lower_char s"

definition is_ascii_letter :: "char \<Rightarrow> bool" where
  \<comment> \<open>the class \<^verbatim>\<open>[A-Za-z]\<close>\<close>
  "is_ascii_letter c =
     (let n = (of_char c :: nat) in (65 \<le> n \<and> n \<le> 90) \<or> (97 \<le> n \<and> n \<le> 122))"

definition is_digit :: "char \<Rightarrow> bool" where
  \<comment> \<open>the class \<^verbatim>\<open>\d\<close>: below code point 256 the decimal digits are \<^verbatim>\<open>0\<close> to \<^verbatim>\<open>9\<close>\<close>
  "is_digit c = (let n = (of_char c :: nat) in 48 \<le> n \<and> n \<le> 57)"

text \<open>
  \<^verbatim>\<open>DataFrame.head(n)\<close>, and a slice \<^verbatim>\<open>[:n]\<close>: the first \<open>n\<close> elements, and for a
  negative \<open>n\<close> all but the last \<open>-n\<close>.
\<close>

definition head :: "int \<Rightarrow> 'a list \<Rightarrow> 'a list" where
  "head n xs = (if 0 \<le> n then take (nat n) xs else take (length xs - nat (- n)) xs)"

text \<open>
  A \<^verbatim>\<open>DataFrame\<close> is its column labels and its rows, each row holding one cell per
  column (\<open>wf_df\<close>). Labels are distinct, as \<^verbatim>\<open>read_excel\<close> makes them, so a label
  selects one column and columns are addressed by position.
\<close>

record 'c dataframe =
  columns :: "string list"
  rows :: "'c list list"

definition wf_df :: "'c dataframe \<Rightarrow> bool" where
  "wf_df df = list_all (\<lambda>r. length r = length (columns df)) (rows df)"

definition df_empty :: "'c dataframe \<Rightarrow> bool" where
  \<comment> \<open>\<^verbatim>\<open>df.empty\<close>: some axis has length 0\<close>
  "df_empty df = (rows df = [] \<or> columns df = [])"

definition df_len :: "'c dataframe \<Rightarrow> int" where
  \<comment> \<open>\<^verbatim>\<open>len(df)\<close>\<close>
  "df_len df = int (length (rows df))"

definition df_head :: "int \<Rightarrow> 'c dataframe \<Rightarrow> 'c dataframe" where
  "df_head n df = df\<lparr>rows := head n (rows df)\<rparr>"

definition df_loc :: "'c dataframe \<Rightarrow> bool list \<Rightarrow> 'c dataframe" where
  \<comment> \<open>\<^verbatim>\<open>df.loc[mask]\<close>: the rows whose mask entry is true, in their order\<close>
  "df_loc df msk = df\<lparr>rows := map fst (filter snd (zip (rows df) msk))\<rparr>"

definition column :: "'c dataframe \<Rightarrow> nat \<Rightarrow> 'c list" where
  \<comment> \<open>\<^verbatim>\<open>df[c]\<close> for the \<open>j\<close>-th label \<open>c\<close>\<close>
  "column df j = map (\<lambda>r. r ! j) (rows df)"

text \<open>
  A \<^verbatim>\<open>dict\<close> keeps its keys in insertion order: an association list, where
  \<^verbatim>\<open>d[k] = v\<close> is \<^const>\<open>AList.update\<close> (the value is replaced in place when the key is
  there, and appended otherwise) and \<^verbatim>\<open>d[k]\<close> is \<^const>\<open>map_of\<close>.
\<close>

type_synonym 'v dict = "(string \<times> 'v) list"

section \<open>The library operations the keyword search calls\<close>

text \<open>
  The keyword search is written against three operations that are not code of this
  program: \<^verbatim>\<open>str(cell)\<close> as \<^verbatim>\<open>astype(str)\<close> applies it to every cell,
  \<^verbatim>\<open>re.compile(pat, re.IGNORECASE)\<close>, and \<^verbatim>\<open>compiled.search(s) is not None\<close>; the last
  two are what \<^verbatim>\<open>Series.str.contains(pat, case=False, na=False)\<close> does, with its default
  \<^verbatim>\<open>regex=True\<close>. They are parameters of the model, so a theorem stated for every
  \<open>L\<close> holds whatever these operations do.
\<close>

record ('c, 'p) library =
  astype_str :: "'c \<Rightarrow> string"
  re_compile :: "string \<Rightarrow> py_error + 'p"
  re_search :: "'p \<Rightarrow> string \<Rightarrow> bool"

section \<open>Keyword search\<close>

text \<open>
  \<^verbatim>\<open>re.match(r"^[A-Za-z]+0*\d+$", str(s))\<close>. After the letters everything up to the end
  must be digits (\<^verbatim>\<open>0*\d+\<close> is one or more digits), and \<^verbatim>\<open>$\<close> matches at the end of the
  string and also just before a newline that ends it.
\<close>

definition looks_like_id :: "string \<Rightarrow> bool" where
  "looks_like_id s =
     (let s' = (if s \<noteq> [] \<and> last s = newline then butlast s else s);
          ds = dropWhile is_ascii_letter s'
      in takeWhile is_ascii_letter s' \<noteq> [] \<and> ds \<noteq> [] \<and> list_all is_digit ds)"

text \<open>
  The identifier pattern in the specification's words: one or more letters, then zero or
  more zeros, then one or more digits, and nothing else.
\<close>

definition id_pattern :: "string \<Rightarrow> bool" where
  "id_pattern q =
     (\<exists>ls zs ds. q = ls @ zs @ ds \<and> ls \<noteq> [] \<and> list_all is_ascii_letter ls
        \<and> list_all (\<lambda>c. c = CHR ''0'') zs \<and> ds \<noteq> [] \<and> list_all is_digit ds)"

definition coerce_to_str :: "('c, 'p) library \<Rightarrow> 'c dataframe \<Rightarrow> string dataframe" where
  \<comment> \<open>\<^verbatim>\<open>df.astype(str).fillna("")\<close>: after \<^verbatim>\<open>astype(str)\<close> no cell is missing\<close>
  "coerce_to_str L df = \<lparr>columns = columns df, rows = map (map (astype_str L)) (rows df)\<rparr>"

definition str_contains :: "('c, 'p) library \<Rightarrow> string \<Rightarrow> string list \<Rightarrow> py_error + bool list" where
  \<comment> \<open>\<^verbatim>\<open>series.str.contains(q, case=False, na=False)\<close>: the pattern is compiled once, then
      searched in every element\<close>
  "str_contains L q col =
     (case re_compile L q of Inl e \<Rightarrow> Inl e | Inr p \<Rightarrow> Inr (map (re_search L p) col))"

fun sequence :: "('e + 'a) list \<Rightarrow> 'e + 'a list" where
  \<comment> \<open>a list comprehension whose elements can raise: the first exception ends it\<close>
  "sequence [] = Inr []"
| "sequence (x # xs) =
     (case x of Inl e \<Rightarrow> Inl e
      | Inr v \<Rightarrow> (case sequence xs of Inl e \<Rightarrow> Inl e | Inr vs \<Rightarrow> Inr (v # vs)))"

definition mask_or :: "bool list \<Rightarrow> bool list \<Rightarrow> bool list" where
  \<comment> \<open>\<^verbatim>\<open>mask | m\<close> on two boolean series over the same index\<close>
  "mask_or a b = map (\<lambda>(x, y). x \<or> y) (zip a b)"

definition keyword_match_mask ::
  "('c, 'p) library \<Rightarrow> 'c dataframe \<Rightarrow> string \<Rightarrow> py_error + bool list" where
  "keyword_match_mask L df q =
     (let sdf = coerce_to_str L df;
          js = [0..<length (columns sdf)];
          col_hits =
            (if looks_like_id q
             then (let ql = lower q
                   in Inr (map (\<lambda>j. map (\<lambda>s. lower s = ql) (column sdf j)) js))
             else sequence (map (\<lambda>j. str_contains L q (column sdf j)) js))
      in case col_hits of
           Inl e \<Rightarrow> Inl e
         | Inr [] \<Rightarrow> Inl IndexError
         | Inr (m # ms) \<Rightarrow> Inr (foldl mask_or m ms))"

text \<open>
  The first loop of \<^verbatim>\<open>keyword_search\<close>, over \<^verbatim>\<open>sheets.items()\<close>, with the state
  \<open>(results, counts, tot)\<close>. The names \<open>tot\<close> and \<open>msk\<close> are the source's \<^verbatim>\<open>total\<close> and
  \<^verbatim>\<open>mask\<close>, which are names of HOL already.
\<close>

type_synonym 'c search_state = "'c dataframe dict \<times> int dict \<times> int"

fun search_sheets ::
  "('c, 'p) library \<Rightarrow> string \<Rightarrow> int \<Rightarrow> 'c dataframe dict \<Rightarrow> 'c search_state
     \<Rightarrow> py_error + 'c search_state" where
  "search_sheets L q per_sheet_cap [] st = Inr st"
| "search_sheets L q per_sheet_cap ((name, df) # rest) (results, counts, tot) =
     (if df_empty df
      then search_sheets L q per_sheet_cap rest (results, AList.update name 0 counts, tot)
      else (case keyword_match_mask L df q of
              Inl e \<Rightarrow> Inl e
            | Inr msk \<Rightarrow>
                (let count = int (length (filter id msk))
                 in search_sheets L q per_sheet_cap rest
                      (if count > 0
                       then AList.update name (df_head per_sheet_cap (df_loc df msk)) results
                       else results,
                       AList.update name count counts,
                       tot + count))))"

text \<open>
  The second loop, over \<^verbatim>\<open>sorted(results.keys())\<close>, with the state
  \<open>(trimmed, remaining)\<close>; \<^verbatim>\<open>break\<close> ends it.
\<close>

fun trim_loop ::
  "'c dataframe dict \<Rightarrow> string list \<Rightarrow> 'c dataframe dict \<times> int
     \<Rightarrow> py_error + 'c dataframe dict" where
  "trim_loop results [] (trimmed, remaining) = Inr trimmed"
| "trim_loop results (name # names) (trimmed, remaining) =
     (if remaining \<le> 0 then Inr trimmed
      else (case map_of results name of
              None \<Rightarrow> Inl KeyError
            | Some dfm \<Rightarrow>
                if df_len dfm \<le> remaining
                then trim_loop results names
                       (AList.update name dfm trimmed, remaining - df_len dfm)
                else trim_loop results names
                       (AList.update name (df_head remaining dfm) trimmed, 0)))"

definition keyword_search ::
  "('c, 'p) library \<Rightarrow> 'c dataframe dict \<Rightarrow> string \<Rightarrow> int \<Rightarrow> int option
     \<Rightarrow> py_error + 'c search_state" where
  "keyword_search L sheets query per_sheet_cap total_cap =
     (case search_sheets L query per_sheet_cap sheets ([], [], 0) of
        Inl e \<Rightarrow> Inl e
      | Inr (results, counts, tot) \<Rightarrow>
          (case total_cap of
             None \<Rightarrow> Inr (results, counts, tot)
           | Some cap \<Rightarrow>
               if tot > cap
               then (case trim_loop results (sort (map fst results)) ([], cap) of
                       Inl e \<Rightarrow> Inl e
                     | Inr trimmed \<Rightarrow> Inr (trimmed, counts, tot))
               else Inr (results, counts, tot)))"

subsection \<open>Rows that match, counts and candidates\<close>

text \<open>
  What the properties below speak of. A row matches when one of its cells does: under the
  identifier policy the cell's string equals the query up to case, otherwise the compiled
  query is found in it. \<open>match_count\<close> is \<^verbatim>\<open>int(mask.sum())\<close> of a sheet (0 for an empty
  one) and \<open>candidate\<close> is \<^verbatim>\<open>df.loc[mask].head(per_sheet_cap)\<close>. \<open>greedy_fill\<close> is the
  global truncation in the specification's words: sheets are taken in the order of the
  names given; a sheet that fits the remaining budget is taken whole; the first that does
  not fit gives its leading rows up to the budget; once the budget is used up, every later
  sheet is dropped.
\<close>

definition row_matches :: "('c, 'p) library \<Rightarrow> string \<Rightarrow> 'c list \<Rightarrow> bool" where
  "row_matches L q r =
     (if looks_like_id q then list_ex (\<lambda>c. lower (astype_str L c) = lower q) r
      else (case re_compile L q of
              Inl e \<Rightarrow> False
            | Inr p \<Rightarrow> list_ex (\<lambda>c. re_search L p (astype_str L c)) r))"

definition match_count :: "('c, 'p) library \<Rightarrow> string \<Rightarrow> 'c dataframe \<Rightarrow> int" where
  "match_count L q df =
     (if df_empty df then 0
      else (case keyword_match_mask L df q of
              Inl e \<Rightarrow> 0
            | Inr msk \<Rightarrow> int (length (filter id msk))))"

definition candidate :: "('c, 'p) library \<Rightarrow> string \<Rightarrow> int \<Rightarrow> 'c dataframe \<Rightarrow> 'c dataframe" where
  "candidate L q per_sheet_cap df =
     (case keyword_match_mask L df q of
        Inl e \<Rightarrow> df
      | Inr msk \<Rightarrow> df_head per_sheet_cap (df_loc df msk))"

fun greedy_fill :: "int \<Rightarrow> string list \<Rightarrow> 'c dataframe dict \<Rightarrow> 'c dataframe dict" where
  "greedy_fill budget [] cands = []"
| "greedy_fill budget (name # names) cands =
     (case map_of cands name of
        None \<Rightarrow> greedy_fill budget names cands
      | Some d \<Rightarrow>
          if budget \<le> 0 then []
          else if df_len d \<le> budget then (name, d) # greedy_fill (budget - df_len d) names cands
          else [(name, df_head budget d)])"

definition total_rows :: "'c dataframe dict \<Rightarrow> int" where
  "total_rows res = sum_list (map (\<lambda>(n, d). df_len d) res)"

section \<open>A concrete model of \<^verbatim>\<open>re\<close> for a fragment of its syntax\<close>

text \<open>
  The patterns covered are those written with ordinary characters, \<^verbatim>\<open>.\<close>, \<^verbatim>\<open>^\<close>, \<^verbatim>\<open>$\<close>,
  \<^verbatim>\<open>|\<close>, plain groups \<^verbatim>\<open>( )\<close> and the repeats \<^verbatim>\<open>*\<close>, \<^verbatim>\<open>+\<close>, \<^verbatim>\<open>?\<close> (also followed by
  \<^verbatim>\<open>?\<close>, the non-greedy forms, which match the same strings). A backslash, \<^verbatim>\<open>[\<close>, \<^verbatim>\<open>{\<close>,
  a group that starts with \<^verbatim>\<open>(?\<close> and a repeat followed by \<^verbatim>\<open>+\<close> are not covered
  (\<open>NotModelled\<close>). The parser reads the pattern from left to right as \<^verbatim>\<open>sre_parse\<close>
  does and raises where it raises: a repeat with nothing before it, or after \<^verbatim>\<open>^\<close> or
  \<^verbatim>\<open>$\<close> (nothing to repeat), a repeat of a repeat (multiple repeat), a \<^verbatim>\<open>)\<close> that
  closes nothing (unbalanced parenthesis) and a \<^verbatim>\<open>(\<close> that is never closed (missing
  \<^verbatim>\<open>)\<close>).
\<close>

datatype regex =
    Lit char | Dot | Bol | Eol | Empty
  | Cat regex regex | Alt regex regex
  | Star regex | Plus regex | Opt regex
  | Group regex

definition cat_list :: "regex list \<Rightarrow> regex" where
  "cat_list items = foldr Cat items Empty"

fun alt_list :: "regex list \<Rightarrow> regex" where
  "alt_list [] = Empty"
| "alt_list [r] = r"
| "alt_list (r # rs) = Alt r (alt_list rs)"

text \<open>
  A frame is what has been read of one group (or of the whole pattern): the finished
  branches of its alternation and the items of the branch being read, both latest first.
\<close>

type_synonym frame = "regex list \<times> regex list"

definition close_frame :: "frame \<Rightarrow> regex" where
  "close_frame f = alt_list (rev (cat_list (rev (snd f)) # fst f))"

definition is_repeat_char :: "char \<Rightarrow> bool" where
  "is_repeat_char c = (c = CHR ''*'' \<or> c = CHR ''+'' \<or> c = CHR ''?'')"

definition repeat :: "char \<Rightarrow> regex \<Rightarrow> regex" where
  "repeat c r = (if c = CHR ''*'' then Star r else if c = CHR ''+'' then Plus r else Opt r)"

fun is_at :: "regex \<Rightarrow> bool" where
  "is_at Bol = True"
| "is_at Eol = True"
| "is_at _ = False"

fun is_repeat :: "regex \<Rightarrow> bool" where
  "is_repeat (Star _) = True"
| "is_repeat (Plus _) = True"
| "is_repeat (Opt _) = True"
| "is_repeat _ = False"

fun sre_parse :: "string \<Rightarrow> frame \<Rightarrow> frame list \<Rightarrow> py_error + regex" where
  "sre_parse [] cur stack = (if stack = [] then Inr (close_frame cur) else Inl ReError)"
| "sre_parse (c # cs) cur stack =
     (if c = CHR 0x5C \<or> c = CHR ''['' \<or> c = CHR ''{'' then Inl NotModelled
      else if c = CHR ''('' then
        (case cs of
           d # _ \<Rightarrow>
             if d = CHR ''?'' then Inl NotModelled else sre_parse cs ([], []) (cur # stack)
         | [] \<Rightarrow> sre_parse cs ([], []) (cur # stack))
      else if c = CHR '')'' then
        (case stack of
           [] \<Rightarrow> Inl ReError
         | outer # stack' \<Rightarrow>
             sre_parse cs (fst outer, Group (close_frame cur) # snd outer) stack')
      else if c = CHR ''|'' then sre_parse cs (cat_list (rev (snd cur)) # fst cur, []) stack
      else if is_repeat_char c then
        (case snd cur of
           [] \<Rightarrow> Inl ReError
         | item # items \<Rightarrow>
             if is_at item \<or> is_repeat item then Inl ReError
             else (case cs of
                     d # ds \<Rightarrow>
                       if d = CHR ''+'' then Inl NotModelled
                       else if d = CHR ''?''
                       then sre_parse ds (fst cur, repeat c item # items) stack
                       else sre_parse cs (fst cur, repeat c item # items) stack
                   | [] \<Rightarrow> sre_parse cs (fst cur, repeat c item # items) stack))
      else sre_parse cs
             (fst cur,
              (if c = CHR ''.'' then Dot else if c = CHR ''^'' then Bol
               else if c = CHR ''$'' then Eol else Lit c) # snd cur)
             stack)"

text \<open>
  \<open>ends r t S\<close> is the set of positions of \<open>t\<close> where a match of \<open>r\<close> that starts at a
  position of \<open>S\<close> can end. With \<^verbatim>\<open>re.IGNORECASE\<close> a character of the pattern matches
  the characters with its lower case; \<^verbatim>\<open>.\<close> matches all but the newline; \<^verbatim>\<open>^\<close> matches
  at the start; \<^verbatim>\<open>$\<close> at the end and before a newline that ends the text. A repeat
  adds the positions one more match reaches until there are no new ones, which takes
  at most one round per position of the text.
\<close>

fun ends :: "regex \<Rightarrow> string \<Rightarrow> nat list \<Rightarrow> nat list" where
  "ends (Lit c) t S =
     map Suc (filter (\<lambda>i. i < length t \<and> lower_char (t ! i) = lower_char c) S)"
| "ends Dot t S = map Suc (filter (\<lambda>i. i < length t \<and> t ! i \<noteq> newline) S)"
| "ends Bol t S = filter (\<lambda>i. i = 0) S"
| "ends Eol t S = filter (\<lambda>i. i = length t \<or> (Suc i = length t \<and> t ! i = newline)) S"
| "ends Empty t S = S"
| "ends (Cat a b) t S = ends b t (ends a t S)"
| "ends (Alt a b) t S = remdups (ends a t S @ ends b t S)"
| "ends (Opt a) t S = remdups (S @ ends a t S)"
| "ends (Star a) t S = ((\<lambda>X. remdups (X @ ends a t X)) ^^ Suc (length t)) S"
| "ends (Plus a) t S = ((\<lambda>X. remdups (X @ ends a t X)) ^^ Suc (length t)) (ends a t S)"
| "ends (Group a) t S = ends a t S"

definition py_re_compile :: "string \<Rightarrow> py_error + regex" where
  "py_re_compile pat = sre_parse pat ([], []) []"

definition py_re_search :: "regex \<Rightarrow> string \<Rightarrow> bool" where
  \<comment> \<open>\<^verbatim>\<open>p.search(t) is not None\<close>: a match may start anywhere\<close>
  "py_re_search p t = (ends p t [0..<Suc (length t)] \<noteq> [])"

text \<open>The library with string cells (\<^verbatim>\<open>str\<close> of a string is the string) and this model.\<close>

definition py_library :: "(string, regex) library" where
  "py_library = \<lparr>astype_str = id, re_compile = py_re_compile, re_search = py_re_search\<rparr>"

section \<open>The semantic index\<close>

text \<open>
  The operations of pandas, scikit-learn and numpy that \<^verbatim>\<open>TfIdfSemantic\<close> calls are
  parameters too. \<open>cell_str\<close> is a cell after \<^verbatim>\<open>astype(str)\<close>: its string, or \<open>None\<close> for a
  cell that a version of pandas leaves missing there, on which \<^verbatim>\<open>join\<close> raises
  \<^verbatim>\<open>TypeError\<close>. \<open>apply_empty\<close> is what \<^verbatim>\<open>apply(..., axis=1)\<close> does on a sheet with no rows
  or no columns, which differs between versions of pandas: it gives one value per row, the
  join of no cells (\<open>None\<close>), or it gives a frame, on which \<^verbatim>\<open>tolist\<close> raises
  \<^verbatim>\<open>AttributeError\<close> (\<open>Some\<close> the exception). The others are fitting a
  \<^verbatim>\<open>TfidfVectorizer\<close> on the documents (it raises \<^verbatim>\<open>ValueError\<close> when they hold no term),
  turning a text into its row of weights, the cosine similarity of two rows, and
  \<^verbatim>\<open>argsort\<close>. \<^verbatim>\<open>fit_transform(texts)\<close> is the fitted model with the rows of the texts it
  was fitted on. In the index, \<open>sem_rows\<close> is the attribute \<^verbatim>\<open>rows\<close>.
\<close>

record ('c, 'v, 'x, 's) sem_library =
  cell_str :: "'c \<Rightarrow> string option"
  apply_empty :: "'c dataframe \<Rightarrow> py_error option"
  fit :: "string list \<Rightarrow> py_error + 'v"
  transform :: "'v \<Rightarrow> string \<Rightarrow> 'x"
  cosine :: "'x \<Rightarrow> 'x \<Rightarrow> 's"
  argsort :: "'s list \<Rightarrow> nat list"

record ('c, 'v, 'x) tfidf_semantic =
  vectorizers :: "'v dict"
  matrices :: "'x list dict"
  sem_rows :: "'c dataframe dict"

fun join :: "string \<Rightarrow> string list \<Rightarrow> string" where
  \<comment> \<open>\<^verbatim>\<open>sep.join(parts)\<close>\<close>
  "join sep [] = []"
| "join sep [p] = p"
| "join sep (p # ps) = p @ sep @ join sep ps"

definition row_text :: "('c, 'v, 'x, 's) sem_library \<Rightarrow> 'c list \<Rightarrow> py_error + string" where
  \<comment> \<open>\<^verbatim>\<open>" | ".join(r.values.tolist())\<close>\<close>
  "row_text L r =
     (case those (map (cell_str L) r) of
        None \<Rightarrow> Inl TypeError
      | Some parts \<Rightarrow> Inr (join '' | '' parts))"

definition row_texts ::
  "('c, 'v, 'x, 's) sem_library \<Rightarrow> 'c dataframe \<Rightarrow> py_error + string list" where
  "row_texts L df =
     (if df_empty df
      then (case apply_empty L df of
              Some e \<Rightarrow> Inl e
            | None \<Rightarrow> Inr (replicate (length (rows df)) []))
      else sequence (map (row_text L) (rows df)))"

text \<open>
  The loop of \<^verbatim>\<open>build\<close>. An exception of \<^verbatim>\<open>row_texts\<close> or of \<^verbatim>\<open>fit_transform\<close> leaves
  the index as the iterations before it made it, so the result is the index and the
  exception, if any.
\<close>

fun build_loop ::
  "('c, 'v, 'x, 's) sem_library \<Rightarrow> int option \<Rightarrow> 'c dataframe dict
     \<Rightarrow> ('c, 'v, 'x) tfidf_semantic \<Rightarrow> ('c, 'v, 'x) tfidf_semantic \<times> py_error option" where
  "build_loop L per_sheet_limit [] sem = (sem, None)"
| "build_loop L per_sheet_limit ((name, df) # rest) sem =
     (let use_df = (case per_sheet_limit of None \<Rightarrow> df | Some n \<Rightarrow> df_head n df)
      in case row_texts L use_df of
           Inl e \<Rightarrow> (sem, Some e)
         | Inr texts \<Rightarrow>
             if texts = [] then build_loop L per_sheet_limit rest sem
             else (case fit L texts of
                     Inl e \<Rightarrow> (sem, Some e)
                   | Inr vec \<Rightarrow>
                       build_loop L per_sheet_limit rest
                         \<lparr>vectorizers = AList.update name vec (vectorizers sem),
                          matrices =
                            AList.update name (map (transform L vec) texts) (matrices sem),
                          sem_rows = AList.update name use_df (sem_rows sem)\<rparr>))"

definition build ::
  "('c, 'v, 'x, 's) sem_library \<Rightarrow> 'c dataframe dict \<Rightarrow> int option
     \<Rightarrow> ('c, 'v, 'x) tfidf_semantic \<Rightarrow> ('c, 'v, 'x) tfidf_semantic \<times> py_error option" where
  \<comment> \<open>the three \<^verbatim>\<open>clear()\<close> calls, then the loop\<close>
  "build L sheets per_sheet_limit sem =
     build_loop L per_sheet_limit sheets \<lparr>vectorizers = [], matrices = [], sem_rows = []\<rparr>"

text \<open>
  A result row of \<^verbatim>\<open>search\<close> is the score, inserted as the first column
  \<^verbatim>\<open>_semantic_score\<close>, and then the cells of the row: \<open>Inl\<close> the score, \<open>Inr\<close> a cell.
  \<^verbatim>\<open>iloc\<close> raises \<^verbatim>\<open>IndexError\<close> for a position that is not a row, and \<^verbatim>\<open>insert\<close> raises
  \<^verbatim>\<open>ValueError\<close> when the sheet has a column of that name already.
\<close>

definition ranked ::
  "('c, 'v, 'x, 's) sem_library \<Rightarrow> 's list \<Rightarrow> int \<Rightarrow> nat list" where
  \<comment> \<open>\<^verbatim>\<open>sims.argsort()[::-1][: int(top_k_per_sheet)]\<close>\<close>
  "ranked L sims top_k = head top_k (rev (argsort L sims))"

fun search_loop ::
  "('c, 'v, 'x, 's) sem_library \<Rightarrow> ('c, 'v, 'x) tfidf_semantic \<Rightarrow> string \<Rightarrow> int
     \<Rightarrow> 'v dict \<Rightarrow> ('s + 'c) dataframe dict \<Rightarrow> py_error + ('s + 'c) dataframe dict" where
  "search_loop L sem query top_k [] out = Inr out"
| "search_loop L sem query top_k ((name, vec) # rest) out =
     (case map_of (matrices sem) name of
        None \<Rightarrow> Inl KeyError
      | Some X \<Rightarrow>
          if length X = 0 then search_loop L sem query top_k rest out
          else (let qv = transform L vec query;
                    sims = map (\<lambda>x. cosine L x qv) X;
                    idx = ranked L sims top_k
                in case map_of (sem_rows sem) name of
                     None \<Rightarrow> Inl KeyError
                   | Some stored \<Rightarrow>
                       if \<not> list_all (\<lambda>i. i < length (rows stored) \<and> i < length sims) idx
                       then Inl IndexError
                       else if ''_semantic_score'' \<in> set (columns stored) then Inl ValueError
                       else search_loop L sem query top_k rest
                              (AList.update name
                                 \<lparr>columns = ''_semantic_score'' # columns stored,
                                  rows = map (\<lambda>i. Inl (sims ! i) # map Inr (rows stored ! i)) idx\<rparr>
                                 out)))"

definition search ::
  "('c, 'v, 'x, 's) sem_library \<Rightarrow> ('c, 'v, 'x) tfidf_semantic \<Rightarrow> string \<Rightarrow> int
     \<Rightarrow> py_error + ('s + 'c) dataframe dict" where
  "search L sem query top_k_per_sheet =
     search_loop L sem query top_k_per_sheet (vectorizers sem) []"

subsection \<open>What the properties of the index speak of\<close>

text \<open>
  \<open>leading_rows\<close>: a stored table is the sheet's leading rows under the limit. \<open>aligned\<close>:
  every stored table has its matrix, with one row per stored row. \<open>score_of\<close> is the
  leading field of a result row. \<open>empty_index\<close> is the index of \<^verbatim>\<open>TfIdfSemantic()\<close>.
\<close>

definition leading_rows :: "int option \<Rightarrow> 'c dataframe \<Rightarrow> 'c dataframe \<Rightarrow> bool" where
  "leading_rows per_sheet_limit df stored =
     (columns stored = columns df
      \<and> prefix (rows stored) (rows df)
      \<and> (case per_sheet_limit of
            None \<Rightarrow> rows stored = rows df
          | Some n \<Rightarrow> 0 \<le> n \<longrightarrow> rows stored = take (nat n) (rows df)))"

definition aligned :: "('c, 'v, 'x) tfidf_semantic \<Rightarrow> bool" where
  "aligned sem =
     (distinct (map fst (sem_rows sem))
      \<and> (\<forall>name stored. map_of (sem_rows sem) name = Some stored \<longrightarrow>
            (\<exists>X. map_of (matrices sem) name = Some X \<and> length X = length (rows stored))))"

definition score_of :: "('s + 'c) list \<Rightarrow> 's option" where
  "score_of r = (case r of Inl s # cells \<Rightarrow> Some s | _ \<Rightarrow> None)"

definition empty_index :: "('c, 'v, 'x) tfidf_semantic" where
  "empty_index = \<lparr>vectorizers = [], matrices = [], sem_rows = []\<rparr>"

section \<open>The application state and \<^verbatim>\<open>/load\<close>\<close>

record ('c, 'v, 'x) app =
  SHEETS :: "'c dataframe dict"
  SEM :: "('c, 'v, 'x) tfidf_semantic"

datatype response = Sheets "string list" | Failed

text \<open>
  \<^verbatim>\<open>load_workbook\<close>, given what \<^verbatim>\<open>read_workbook_bytes(raw)\<close> did: it raised, or it returned
  the workbook. The \<^verbatim>\<open>except\<close> clause turns an exception of either step into the
  status-400 response and leaves the globals as they are at that point.
\<close>

definition load_workbook ::
  "('c, 'v, 'x, 's) sem_library \<Rightarrow> py_error + 'c dataframe dict \<Rightarrow> ('c, 'v, 'x) app
     \<Rightarrow> ('c, 'v, 'x) app \<times> response" where
  "load_workbook L parsed st =
     (case parsed of
        Inl e \<Rightarrow> (st, Failed)
      | Inr wb \<Rightarrow>
          (case build L wb (Some 5000) (SEM st) of
             (sem', None) \<Rightarrow> (\<lparr>SHEETS = wb, SEM = sem'\<rparr>, Sheets (map fst wb))
           | (sem', Some e) \<Rightarrow> (\<lparr>SHEETS = wb, SEM = sem'\<rparr>, Failed)))"

text \<open>
  A concrete library for the index, for running it. Every cell has its string, and
  \<^verbatim>\<open>apply\<close> gives one value per row on every sheet. \<^verbatim>\<open>TfidfVectorizer\<close> takes as terms
  the runs of two or more word characters (\<^verbatim>\<open>(?u)\b\w\w+\b\<close>), and \<^verbatim>\<open>fit\<close> raises
  \<^verbatim>\<open>ValueError\<close> (empty vocabulary) when no document has one. The weights themselves
  are not modelled: the fitted model stands as the documents it was fitted on, a row as
  its text, and the score of a row is the number of its characters that occur in the
  query, a stand-in for the cosine similarity.
\<close>

definition is_word_char :: "char \<Rightarrow> bool" where
  "is_word_char c =
     (let n = (of_char c :: nat)
      in (48 \<le> n \<and> n \<le> 57) \<or> (65 \<le> n \<and> n \<le> 90) \<or> (97 \<le> n \<and> n \<le> 122) \<or> n = 95
         \<or> n = 170 \<or> n = 178 \<or> n = 179 \<or> n = 181 \<or> n = 185 \<or> n = 186
         \<or> n = 188 \<or> n = 189 \<or> n = 190
         \<or> (192 \<le> n \<and> n \<noteq> 215 \<and> n \<noteq> 247))"

fun has_term :: "string \<Rightarrow> bool" where
  "has_term (a # b # cs) = ((is_word_char a \<and> is_word_char b) \<or> has_term (b # cs))"
| "has_term _ = False"

definition tfidf_fit :: "string list \<Rightarrow> py_error + string list" where
  "tfidf_fit texts = (if list_ex has_term texts then Inr texts else Inl ValueError)"

definition sample_sem_library :: "(string, string list, string, int) sem_library" where
  "sample_sem_library =
     \<lparr>cell_str = Some, apply_empty = (\<lambda>df. None), fit = tfidf_fit,
      transform = (\<lambda>vec text. text),
      cosine = (\<lambda>x q. int (length (filter (\<lambda>c. c \<in> set q) x))),
      argsort = (\<lambda>sims. sort_key (\<lambda>i. sims ! i) [0..<length sims])\<rparr>"

section \<open>Sample workbooks\<close>

text \<open>
  The sheet \<^verbatim>\<open>Parts\<close> of the specification's example, and a workbook of two sheets with two
  rows each that hold \<^verbatim>\<open>bolt\<close>, loaded in the order \<^verbatim>\<open>SheetB\<close>, \<^verbatim>\<open>SheetA\<close>.
\<close>

definition parts_sheet :: "string dataframe" where
  "parts_sheet =
     \<lparr>columns = [''id'', ''name''],
      rows = [[''AB007'', ''Bolt''], [''AB107'', ''Bolt Long''], [''CD007'', ''Nut'']]\<rparr>"

definition two_sheets :: "string dataframe dict" where
  "two_sheets =
     [(''SheetB'', \<lparr>columns = [''item''], rows = [[''Hex bolt''], [''Nut''], [''Bolt M8'']]\<rparr>),
      (''SheetA'', \<lparr>columns = [''item''], rows = [[''Bolt''], [''Bolt Long''], [''Nut'']]\<rparr>)]"

text \<open>The characters that the syntax of \<^verbatim>\<open>re\<close> gives a meaning of their own.\<close>

definition is_special :: "char \<Rightarrow> bool" where
  "is_special c = (c \<in> set ''.^$*+?{[|()'' \<or> c = CHR 0x5C)"

text \<open>
  Containment in the specification's words: the query occurs in the cell's string as a
  literal substring, case ignored.
\<close>

definition contains_literal :: "string \<Rightarrow> string \<Rightarrow> bool" where
  "contains_literal cell q = sublist (lower q) (lower cell)"

text \<open>A sheet whose cells are single characters: its documents hold no term.\<close>

definition codes_sheet :: "string dataframe" where
  "codes_sheet = \<lparr>columns = [''code''], rows = [[''7''], [''8'']]\<rparr>"

section \<open>Properties of the keyword search\<close>

subsection \<open>The match mask, row by row\<close>

lemma mask_or_map: "mask_or (map A rs) (map B rs) = map (\<lambda>r. A r \<or> B r) rs"
  by (simp add: mask_or_def zip_map_map zip_same_conv_map)

lemma foldl_mask_or:
  "foldl mask_or (map A rs) (map (\<lambda>j. map (\<lambda>r. P (r ! j)) rs) js)
     = map (\<lambda>r. A r \<or> (\<exists>j\<in>set js. P (r ! j))) rs"
proof (induction js arbitrary: A)
  case Nil
  then show ?case by simp
next
  case (Cons j js)
  have "foldl mask_or (map A rs) (map (\<lambda>j. map (\<lambda>r. P (r ! j)) rs) (j # js))
      = foldl mask_or (map (\<lambda>r. A r \<or> P (r ! j)) rs) (map (\<lambda>j. map (\<lambda>r. P (r ! j)) rs) js)"
    by (simp add: mask_or_map)
  also have "\<dots> = map (\<lambda>r. (A r \<or> P (r ! j)) \<or> (\<exists>j\<in>set js. P (r ! j))) rs"
    by (rule Cons.IH)
  also have "\<dots> = map (\<lambda>r. A r \<or> (\<exists>j\<in>set (j # js). P (r ! j))) rs"
    by auto
  finally show ?case .
qed

lemma col_masks:
  assumes "0 < n"
  shows "(case map (\<lambda>j. map (\<lambda>r. P (r ! j)) rs) [0..<n] of
            [] \<Rightarrow> Inl IndexError | m # ms \<Rightarrow> Inr (foldl mask_or m ms))
         = (Inr (map (\<lambda>r. \<exists>j<n. P (r ! j)) rs) :: py_error + bool list)"
proof -
  have up: "[0..<n] = 0 # [1..<n]"
    using assms by (simp add: upt_conv_Cons)
  have "foldl mask_or (map (\<lambda>r. P (r ! 0)) rs) (map (\<lambda>j. map (\<lambda>r. P (r ! j)) rs) [1..<n])
      = map (\<lambda>r. P (r ! 0) \<or> (\<exists>j\<in>set [1..<n]. P (r ! j))) rs"
    by (rule foldl_mask_or)
  also have "\<dots> = map (\<lambda>r. \<exists>j<n. P (r ! j)) rs"
  proof (rule map_cong[OF refl])
    fix r
    show "(P (r ! 0) \<or> (\<exists>j\<in>set [1..<n]. P (r ! j))) = (\<exists>j<n. P (r ! j))"
      using assms by (metis One_nat_def atLeastLessThan_iff less_one linorder_not_less set_upt)
  qed
  finally show ?thesis
    by (simp add: up)
qed

lemma sequence_Inr: "sequence (map (\<lambda>j. Inr (f j)) js) = Inr (map f js)"
  by (induction js) auto

lemma sequence_Inl: "js \<noteq> [] \<Longrightarrow> sequence (map (\<lambda>j. Inl e) js) = Inl e"
  by (cases js) auto

lemma ex_nth_list_ex:
  "length r = n \<Longrightarrow> (\<exists>j<n. P (map f r ! j)) = list_ex (\<lambda>c. P (f c)) r"
proof -
  assume len: "length r = n"
  have "(\<exists>j<n. P (map f r ! j)) = (\<exists>j<length r. P (f (r ! j)))"
    using len by auto
  also have "\<dots> = (\<exists>c\<in>set r. P (f c))"
    by (metis in_set_conv_nth)
  finally show ?thesis by (simp add: list_ex_iff)
qed

lemma keyword_match_mask_rows:
  assumes wf: "wf_df df" and cols: "columns df \<noteq> []"
  shows "keyword_match_mask L df q =
           (if looks_like_id q then Inr (map (row_matches L q) (rows df))
            else (case re_compile L q of
                    Inl e \<Rightarrow> Inl e
                  | Inr p \<Rightarrow> Inr (map (row_matches L q) (rows df))))"
proof -
  let ?n = "length (columns df)"
  have n: "0 < ?n" using cols by simp
  have len: "\<And>r. r \<in> set (rows df) \<Longrightarrow> length r = ?n"
    using wf by (simp add: wf_df_def list_all_iff)
  have rowwise: "(\<exists>j<?n. P (map (astype_str L) r ! j)) = list_ex (\<lambda>c. P (astype_str L c)) r"
    if "r \<in> set (rows df)" for r P
    using len[OF that] by (rule ex_nth_list_ex)
  have rw: "map (\<lambda>r. \<exists>j<?n. P (r ! j)) (map (map (astype_str L)) (rows df))
      = map (\<lambda>r. list_ex (\<lambda>c. P (astype_str L c)) r) (rows df)" for P
    unfolding map_map comp_def
    by (rule map_cong[OF refl]) (rule rowwise)
  show ?thesis
  proof (cases "looks_like_id q")
    case True
    have "keyword_match_mask L df q
        = Inr (map (\<lambda>r. \<exists>j<?n. lower (r ! j) = lower q) (map (map (astype_str L)) (rows df)))"
      using True col_masks[OF n, of "\<lambda>s. lower s = lower q" "map (map (astype_str L)) (rows df)"]
      by (simp add: keyword_match_mask_def coerce_to_str_def column_def comp_def)
    then have "keyword_match_mask L df q
        = Inr (map (\<lambda>r. list_ex (\<lambda>c. lower (astype_str L c) = lower q) r) (rows df))"
      by (simp only: rw[of "\<lambda>s. lower s = lower q"])
    then show ?thesis
      using True by (simp add: row_matches_def)
  next
    case False
    show ?thesis
    proof (cases "re_compile L q")
      case (Inl e)
      have "[0..<?n] \<noteq> []" using n by simp
      then have "sequence (map (\<lambda>j. Inl e :: py_error + bool list) [0..<?n]) = Inl e"
        by (rule sequence_Inl)
      then show ?thesis
        using False Inl
        by (simp add: keyword_match_mask_def coerce_to_str_def str_contains_def)
    next
      case (Inr p)
      have sq: "sequence (map (\<lambda>j. Inr (g j) :: py_error + bool list) [0..<?n])
          = Inr (map g [0..<?n])" for g
        by (rule sequence_Inr)
      have "keyword_match_mask L df q
          = Inr (map (\<lambda>r. \<exists>j<?n. re_search L p (r ! j)) (map (map (astype_str L)) (rows df)))"
        using False Inr
          col_masks[OF n, of "re_search L p" "map (map (astype_str L)) (rows df)"]
        by (simp add: keyword_match_mask_def coerce_to_str_def column_def str_contains_def
            comp_def sq)
      then have "keyword_match_mask L df q
          = Inr (map (\<lambda>r. list_ex (\<lambda>c. re_search L p (astype_str L c)) r) (rows df))"
        by (simp only: rw[of "re_search L p"])
      then show ?thesis
        using False Inr by (simp add: row_matches_def)
    qed
  qed
qed

subsection \<open>The two loops in closed form\<close>

lemma update_append: "k \<notin> fst ` set al \<Longrightarrow> AList.update k v al = al @ [(k, v)]"
  by (induction al) auto

lemma loc_filter: "map fst (filter snd (zip xs (map P xs))) = filter P xs"
  by (induction xs) auto

lemma length_loc: "length (map fst (filter snd (zip xs msk))) \<le> length (filter id msk)"
proof (induction xs arbitrary: msk)
  case Nil
  then show ?case by simp
next
  case (Cons x xs)
  then show ?case by (cases msk) (auto simp: le_SucI)
qed

lemma length_head: "length (head n xs) \<le> length xs"
  by (simp add: head_def)

lemma length_head_cap: "0 \<le> n \<Longrightarrow> int (length (head n xs)) \<le> n"
  by (simp add: head_def)

lemma set_head: "set (head n xs) \<subseteq> set xs"
  by (auto simp: head_def dest: in_set_takeD)

lemma search_sheets_char:
  assumes "distinct (map fst sheets)"
    and "fst ` set res \<inter> set (map fst sheets) = {}"
    and "fst ` set cnt \<inter> set (map fst sheets) = {}"
    and "search_sheets L q cap sheets (res, cnt, t) = Inr (res', cnt', t')"
  shows "res' = res @ map (\<lambda>(n, df). (n, candidate L q cap df))
                        (filter (\<lambda>(n, df). 0 < match_count L q df) sheets)
       \<and> cnt' = cnt @ map (\<lambda>(n, df). (n, match_count L q df)) sheets
       \<and> t' = t + sum_list (map (\<lambda>(n, df). match_count L q df) sheets)
       \<and> list_all (\<lambda>(n, df). df_empty df \<or> (\<exists>msk. keyword_match_mask L df q = Inr msk)) sheets"
  using assms
proof (induction sheets arbitrary: res cnt t)
  case Nil
  then show ?case by simp
next
  case (Cons s rest)
  obtain name df where s: "s = (name, df)" by (cases s)
  have nres: "name \<notin> fst ` set res" and ncnt: "name \<notin> fst ` set cnt"
    using Cons.prems(2,3) s by auto
  have drest: "distinct (map fst rest)" and nrest: "name \<notin> set (map fst rest)"
    using Cons.prems(1) s by auto
  show ?case
  proof (cases "df_empty df")
    case True
    have run: "search_sheets L q cap rest (res, cnt @ [(name, 0)], t) = Inr (res', cnt', t')"
      using Cons.prems(4) True s by (simp add: update_append[OF ncnt])
    have d1: "fst ` set res \<inter> set (map fst rest) = {}"
      using Cons.prems(2) by auto
    have d2: "fst ` set (cnt @ [(name, 0)]) \<inter> set (map fst rest) = {}"
      using Cons.prems(3) nrest by auto
    from Cons.IH[OF drest d1 d2 run] show ?thesis
      using True s by (simp add: match_count_def)
  next
    case False
    then obtain msk where msk: "keyword_match_mask L df q = Inr msk"
      using Cons.prems(4) s by (cases "keyword_match_mask L df q") auto
    let ?c = "int (length (filter id msk))"
    have mc: "match_count L q df = ?c"
      using False msk by (simp add: match_count_def)
    have cand: "candidate L q cap df = df_head cap (df_loc df msk)"
      using msk by (simp add: candidate_def)
    let ?res1 = "if 0 < ?c then res @ [(name, candidate L q cap df)] else res"
    have run: "search_sheets L q cap rest (?res1, cnt @ [(name, ?c)], t + ?c) = Inr (res', cnt', t')"
      using Cons.prems(4) False s msk
      by (cases "filter id msk = []")
        (simp_all add: update_append[OF ncnt] update_append[OF nres] cand Let_def)
    have d1: "fst ` set ?res1 \<inter> set (map fst rest) = {}"
      using Cons.prems(2) nrest by auto
    have d2: "fst ` set (cnt @ [(name, ?c)]) \<inter> set (map fst rest) = {}"
      using Cons.prems(3) nrest by auto
    from Cons.IH[OF drest d1 d2 run] show ?thesis
      using False s msk mc by (auto simp: cand)
  qed
qed

lemma trim_loop_break: "trim_loop results names (trimmed, 0) = Inr trimmed"
  by (cases names) auto

lemma trim_loop_char:
  assumes "distinct names"
    and "set names \<subseteq> fst ` set results"
    and "fst ` set trimmed \<inter> set names = {}"
  shows "trim_loop results names (trimmed, remaining)
         = Inr (trimmed @ greedy_fill remaining names results)"
  using assms
proof (induction names arbitrary: trimmed remaining)
  case Nil
  then show ?case by simp
next
  case (Cons name names)
  obtain d where d: "map_of results name = Some d"
    using Cons.prems(2) by (cases "map_of results name") (auto simp: map_of_eq_None_iff)
  have ntr: "name \<notin> fst ` set trimmed"
    using Cons.prems(3) by auto
  have dn: "distinct names" and nn: "name \<notin> set names"
    using Cons.prems(1) by auto
  have sub: "set names \<subseteq> fst ` set results"
    using Cons.prems(2) by auto
  have disj: "fst ` set (trimmed @ [(name, v)]) \<inter> set names = {}" for v
    using Cons.prems(3) nn by auto
  show ?case
  proof (cases "remaining \<le> 0")
    case True
    then show ?thesis by (simp add: d)
  next
    case False
    show ?thesis
    proof (cases "df_len d \<le> remaining")
      case True
      then show ?thesis
        using False d Cons.IH[OF dn sub disj]
        by (simp add: update_append[OF ntr])
    next
      case fits: False
      then show ?thesis
        using False d by (simp add: update_append[OF ntr] trim_loop_break)
    qed
  qed
qed

lemma keyword_search_char:
  assumes dist: "distinct (map fst sheets)"
    and ret: "keyword_search L sheets q cap total_cap = Inr (results, counts, tot)"
  defines "cands \<equiv> map (\<lambda>(n, df). (n, candidate L q cap df))
                     (filter (\<lambda>(n, df). 0 < match_count L q df) sheets)"
  shows "counts = map (\<lambda>(n, df). (n, match_count L q df)) sheets"
    and "tot = sum_list (map (\<lambda>(n, df). match_count L q df) sheets)"
    and "list_all (\<lambda>(n, df). df_empty df \<or> (\<exists>msk. keyword_match_mask L df q = Inr msk)) sheets"
    and "search_sheets L q cap sheets ([], [], 0) = Inr (cands, counts, tot)"
    and "results = (case total_cap of
                      None \<Rightarrow> cands
                    | Some c \<Rightarrow> if c < tot then greedy_fill c (sort (map fst cands)) cands
                               else cands)"
proof -
  obtain res1 cnt1 t1 where loop: "search_sheets L q cap sheets ([], [], 0) = Inr (res1, cnt1, t1)"
    using ret by (auto simp: keyword_search_def split: sum.splits)
  have ch: "res1 = cands \<and> cnt1 = map (\<lambda>(n, df). (n, match_count L q df)) sheets
       \<and> t1 = sum_list (map (\<lambda>(n, df). match_count L q df) sheets)
       \<and> list_all (\<lambda>(n, df). df_empty df \<or> (\<exists>msk. keyword_match_mask L df q = Inr msk)) sheets"
    using search_sheets_char[OF dist _ _ loop] by (simp add: cands_def)
  have trim: "trim_loop cands (sort (map fst cands)) ([], c)
       = Inr (greedy_fill c (sort (map fst cands)) cands)" for c
  proof -
    have "distinct (map fst cands)"
      using dist by (simp add: cands_def comp_def case_prod_unfold distinct_map_filter)
    then have "distinct (sort (map fst cands))" by simp
    then show ?thesis
      using trim_loop_char[of "sort (map fst cands)" cands "[]" c] by simp
  qed
  have rest: "counts = cnt1 \<and> tot = t1 \<and>
      results = (case total_cap of None \<Rightarrow> cands
                 | Some c \<Rightarrow> if c < tot then greedy_fill c (sort (map fst cands)) cands else cands)"
    using ret loop ch trim
    by (auto simp: keyword_search_def split: option.splits if_splits)
  show "counts = map (\<lambda>(n, df). (n, match_count L q df)) sheets"
    and "tot = sum_list (map (\<lambda>(n, df). match_count L q df) sheets)"
    and "list_all (\<lambda>(n, df). df_empty df \<or> (\<exists>msk. keyword_match_mask L df q = Inr msk)) sheets"
    and "search_sheets L q cap sheets ([], [], 0) = Inr (cands, counts, tot)"
    and "results = (case total_cap of
                      None \<Rightarrow> cands
                    | Some c \<Rightarrow> if c < tot then greedy_fill c (sort (map fst cands)) cands
                               else cands)"
    using rest ch loop by simp_all
qed

subsection \<open>Counts, candidates and what the truncation keeps\<close>

lemma row_matches_Nil: "row_matches L q [] = False"
  by (simp add: row_matches_def split: sum.splits)

lemma mask_is_row_matches:
  assumes "wf_df df" and "\<not> df_empty df" and "keyword_match_mask L df q = Inr msk"
  shows "msk = map (row_matches L q) (rows df)"
proof -
  have "columns df \<noteq> []" using assms(2) by (simp add: df_empty_def)
  from keyword_match_mask_rows[OF assms(1) this, of L q] assms(3)
  show ?thesis by (auto split: if_splits sum.splits)
qed

lemma match_count_rows:
  assumes "wf_df df" and "df_empty df \<or> (\<exists>msk. keyword_match_mask L df q = Inr msk)"
  shows "match_count L q df = int (length (filter (row_matches L q) (rows df)))"
proof (cases "df_empty df")
  case True
  have "filter (row_matches L q) (rows df) = []"
  proof (cases "rows df = []")
    case True
    then show ?thesis by simp
  next
    case False
    then have "columns df = []" using True by (simp add: df_empty_def)
    then have "\<forall>r\<in>set (rows df). r = []"
      using assms(1) by (simp add: wf_df_def list_all_iff)
    then show ?thesis by (auto simp: filter_empty_conv row_matches_Nil)
  qed
  then show ?thesis using True by (simp add: match_count_def)
next
  case False
  then obtain msk where m: "keyword_match_mask L df q = Inr msk"
    using assms(2) by auto
  have "msk = map (row_matches L q) (rows df)"
    by (rule mask_is_row_matches[OF assms(1) False m])
  then have "length (filter id msk) = length (filter (row_matches L q) (rows df))"
    by (simp add: filter_map comp_def)
  then show ?thesis using False m by (simp add: match_count_def)
qed

lemma candidate_rows:
  assumes "wf_df df" and "\<not> df_empty df" and "keyword_match_mask L df q = Inr msk"
  shows "candidate L q cap df = df\<lparr>rows := head cap (filter (row_matches L q) (rows df))\<rparr>"
proof -
  have "msk = map (row_matches L q) (rows df)"
    by (rule mask_is_row_matches[OF assms])
  then show ?thesis
    using assms(3) by (simp add: candidate_def df_head_def df_loc_def loc_filter)
qed

lemma match_count_nonneg: "0 \<le> match_count L q df"
  by (simp add: match_count_def split: sum.splits)

lemma match_count_pos:
  "0 < match_count L q df \<Longrightarrow> \<not> df_empty df \<and> (\<exists>msk. keyword_match_mask L df q = Inr msk)"
  by (auto simp: match_count_def split: if_splits sum.splits)

lemma candidate_len: 
  assumes "0 < match_count L q df"
  shows "df_len (candidate L q cap df) \<le> match_count L q df"
proof -
  from match_count_pos[OF assms] obtain msk where ne: "\<not> df_empty df"
    and m: "keyword_match_mask L df q = Inr msk" by auto
  have "length (head cap (map fst (filter snd (zip (rows df) msk)))) \<le> length (filter id msk)"
    using length_head[of cap "map fst (filter snd (zip (rows df) msk))"]
      length_loc[of "rows df" msk] by linarith
  then show ?thesis
    using ne m by (simp add: candidate_def match_count_def df_len_def df_head_def df_loc_def)
qed

lemma total_rows_candidates:
  "total_rows (map (\<lambda>(n, df). (n, candidate L q cap df))
                 (filter (\<lambda>(n, df). 0 < match_count L q df) sheets))
     \<le> sum_list (map (\<lambda>(n, df). match_count L q df) sheets)"
proof (induction sheets)
  case Nil
  then show ?case by (simp add: total_rows_def)
next
  case (Cons s sheets)
  obtain n df where s: "s = (n, df)" by (cases s)
  show ?case
    using Cons candidate_len[of L q df cap] match_count_nonneg[of L q df]
    by (auto simp: s total_rows_def)
qed

lemma greedy_fill_entry:
  assumes "(n, d) \<in> set (greedy_fill budget names cands)"
  shows "\<exists>d0. map_of cands n = Some d0 \<and> columns d = columns d0
            \<and> prefix (rows d) (rows d0) \<and> (rows d = [] \<longrightarrow> rows d0 = [])"
  using assms
proof (induction names arbitrary: budget)
  case Nil
  then show ?case by simp
next
  case (Cons name names)
  show ?case
  proof (cases "map_of cands name")
    case None
    then show ?thesis using Cons by simp
  next
    case (Some d0)
    show ?thesis
    proof (cases "budget \<le> 0")
      case True
      then show ?thesis using Cons.prems Some by simp
    next
      case pos: False
      show ?thesis
      proof (cases "df_len d0 \<le> budget")
        case True
        then show ?thesis
          using Cons Some pos by auto
      next
        case False
        then have "n = name" and d: "d = df_head budget d0"
          using Cons.prems Some pos by auto
        have "rows d = take (nat budget) (rows d0)"
          using pos by (simp add: d df_head_def head_def)
        moreover have "rows d0 \<noteq> []" and "0 < nat budget"
          using False pos by (auto simp: df_len_def)
        ultimately show ?thesis
          using Some \<open>n = name\<close> by (auto simp: d df_head_def take_is_prefix take_eq_Nil)
      qed
    qed
  qed
qed

lemma total_rows_greedy_fill: "0 \<le> budget \<Longrightarrow> total_rows (greedy_fill budget names cands) \<le> budget"
proof (induction names arbitrary: budget)
  case Nil
  then show ?case by (simp add: total_rows_def)
next
  case (Cons name names)
  show ?case
  proof (cases "map_of cands name")
    case None
    then show ?thesis using Cons by simp
  next
    case (Some d0)
    have "total_rows (greedy_fill (budget - df_len d0) names cands) \<le> budget - df_len d0"
      if "df_len d0 \<le> budget"
      using that Cons.IH[of "budget - df_len d0"] by simp
    then show ?thesis
      using Some Cons.prems
      by (auto simp: total_rows_def df_len_def df_head_def head_def)
  qed
qed

lemma results_provenance:
  assumes dist: "distinct (map fst sheets)"
    and ret: "keyword_search L sheets q cap total_cap = Inr (results, counts, tot)"
    and mem: "(n, d) \<in> set results"
  shows "\<exists>df. (n, df) \<in> set sheets \<and> 0 < match_count L q df
           \<and> columns d = columns (candidate L q cap df)
           \<and> prefix (rows d) (rows (candidate L q cap df))
           \<and> (rows d = [] \<longrightarrow> rows (candidate L q cap df) = [])"
proof -
  define cands where "cands = map (\<lambda>(n, df). (n, candidate L q cap df))
                     (filter (\<lambda>(n, df). 0 < match_count L q df) sheets)"
  have res: "results = (case total_cap of
                      None \<Rightarrow> cands
                    | Some c \<Rightarrow> if c < tot then greedy_fill c (sort (map fst cands)) cands
                               else cands)"
    unfolding cands_def by (rule keyword_search_char(5)[OF dist ret])
  have "\<exists>d0. (n, d0) \<in> set cands \<and> columns d = columns d0
            \<and> prefix (rows d) (rows d0) \<and> (rows d = [] \<longrightarrow> rows d0 = [])"
  proof (cases "results = cands")
    case True
    then show ?thesis using mem by auto
  next
    case False
    then obtain c where "results = greedy_fill c (sort (map fst cands)) cands"
      using res by (auto split: option.splits if_splits)
    then show ?thesis
      using greedy_fill_entry[of n d c "sort (map fst cands)" cands] mem
      by (auto dest: map_of_SomeD)
  qed
  then obtain d0 where d0: "(n, d0) \<in> set cands" "columns d = columns d0"
      "prefix (rows d) (rows d0)" "rows d = [] \<longrightarrow> rows d0 = []"
    by blast
  from d0(1) obtain df where "(n, df) \<in> set sheets" "0 < match_count L q df"
      "d0 = candidate L q cap df"
    by (auto simp: cands_def)
  then show ?thesis using d0 by blast
qed

lemma map_of_map_snd:
  "distinct (map fst xs) \<Longrightarrow> (n, v) \<in> set xs
     \<Longrightarrow> map_of (map (\<lambda>(n, v). (n, f v)) xs) n = Some (f v)"
  by (induction xs) (auto simp: rev_image_eqI)

subsection \<open>The identifier policy\<close>

text \<open>
  \<open>looks_like_id\<close> accepts every string of the identifier pattern, and nothing else but
  such a string followed by one newline.
\<close>

lemma digit_not_letter: "is_digit c \<Longrightarrow> \<not> is_ascii_letter c"
  unfolding is_digit_def is_ascii_letter_def Let_def by linarith

lemma zero_is_digit: "is_digit CHR ''0''"
  by (simp add: is_digit_def)

lemma newline_not_digit: "\<not> is_digit newline"
  by (simp add: is_digit_def newline_def)

lemma letters_then_digits:
  assumes "ls \<noteq> []" "list_all is_ascii_letter ls" "ds \<noteq> []" "list_all is_digit ds"
  shows "looks_like_id (ls @ ds)"
proof -
  have "last ds \<in> set ds" using assms(3) by simp
  then have "is_digit (last ds)" using assms(4) by (simp add: list_all_iff)
  then have "last ds \<noteq> newline" using newline_not_digit by auto
  then have last: "last (ls @ ds) \<noteq> newline" using assms(3) by simp
  have hd: "\<not> is_ascii_letter (hd ds)"
    using assms(3,4) digit_not_letter by (cases ds) auto
  have tw: "takeWhile is_ascii_letter (ls @ ds) = ls"
    using assms(2,3) hd by (cases ds) (auto simp: list_all_iff takeWhile_append2)
  have dw: "dropWhile is_ascii_letter (ls @ ds) = ds"
    using assms(2,3) hd by (cases ds) (auto simp: list_all_iff dropWhile_append2)
  have keep: "(if ls @ ds \<noteq> [] \<and> last (ls @ ds) = newline then butlast (ls @ ds) else ls @ ds)
      = ls @ ds"
    using last by simp
  show ?thesis
    unfolding looks_like_id_def Let_def keep tw dw using assms(1,3,4) by simp
qed

lemma id_pattern_looks_like_id: "id_pattern q \<Longrightarrow> looks_like_id q"
proof -
  assume "id_pattern q"
  then obtain ls zs ds where q: "q = ls @ zs @ ds" "ls \<noteq> []" "list_all is_ascii_letter ls"
    "list_all (\<lambda>c. c = CHR ''0'') zs" "ds \<noteq> []" "list_all is_digit ds"
    by (auto simp: id_pattern_def)
  have "list_all is_digit zs"
    using q(4) by (induction zs) (simp_all add: zero_is_digit)
  then have "list_all is_digit (zs @ ds)"
    using q(6) by simp
  moreover have "zs @ ds \<noteq> []" using q(5) by simp
  ultimately show ?thesis
    unfolding q(1) using q(2,3) by (intro letters_then_digits)
qed

lemma looks_like_id_cases:
  assumes "looks_like_id q"
  shows "id_pattern q \<or> (\<exists>q'. q = q' @ [newline] \<and> id_pattern q')"
proof -
  define s where "s = (if q \<noteq> [] \<and> last q = newline then butlast q else q)"
  have parts: "takeWhile is_ascii_letter s \<noteq> []" "dropWhile is_ascii_letter s \<noteq> []"
    "list_all is_digit (dropWhile is_ascii_letter s)"
    using assms by (simp_all add: looks_like_id_def s_def Let_def)
  have letters: "list_all is_ascii_letter (takeWhile is_ascii_letter s)"
    by (auto simp: list_all_iff dest: set_takeWhileD)
  have "id_pattern s"
    unfolding id_pattern_def
    by (rule exI[of _ "takeWhile is_ascii_letter s"], rule exI[of _ "[]"],
        rule exI[of _ "dropWhile is_ascii_letter s"])
      (use parts letters in simp)
  moreover have "q = s \<or> q = s @ [newline]"
  proof (cases "q \<noteq> [] \<and> last q = newline")
    case True
    then have "butlast q @ [newline] = q"
      using append_butlast_last_id[of q] by auto
    then show ?thesis using True by (auto simp: s_def)
  next
    case False
    then show ?thesis by (auto simp: s_def)
  qed
  ultimately show ?thesis by auto
qed

text \<open>
  C1. For a query that \<open>looks_like_id\<close> accepts, which every query of the identifier
  pattern is (\<open>id_pattern_looks_like_id\<close>), every row of every table that
  \<^verbatim>\<open>keyword_search\<close> returns has a cell whose string equals the whole query up to case: a
  cell that only contains the query does not bring its row in. Sheet names are distinct,
  being the keys of a \<^verbatim>\<open>dict\<close>, and every sheet has one cell per column in every row.
\<close>

theorem id_query_exact_match:
  assumes "looks_like_id q"
    and "distinct (map fst sheets)"
    and "list_all (\<lambda>(n, df). wf_df df) sheets"
    and "keyword_search L sheets q per_sheet_cap total_cap = Inr (results, counts, tot)"
    and "(name, d) \<in> set results"
    and "r \<in> set (rows d)"
  shows "\<exists>c\<in>set r. lower (astype_str L c) = lower q"
proof -
  from results_provenance[OF assms(2,4,5)] obtain df where df: "(name, df) \<in> set sheets"
    "0 < match_count L q df" "prefix (rows d) (rows (candidate L q per_sheet_cap df))"
    by blast
  have wf: "wf_df df" using assms(3) df(1) by (auto simp: list_all_iff)
  from match_count_pos[OF df(2)] obtain msk where "\<not> df_empty df"
    "keyword_match_mask L df q = Inr msk" by blast
  then have "candidate L q per_sheet_cap df
      = df\<lparr>rows := head per_sheet_cap (filter (row_matches L q) (rows df))\<rparr>"
    using wf by (simp add: candidate_rows)
  then have "set (rows (candidate L q per_sheet_cap df)) \<subseteq> set (filter (row_matches L q) (rows df))"
    using set_head[of per_sheet_cap "filter (row_matches L q) (rows df)"] by simp
  moreover have "r \<in> set (rows (candidate L q per_sheet_cap df))"
    using df(3) assms(6) by (auto dest: set_mono_prefix)
  ultimately have "row_matches L q r" by auto
  then show ?thesis
    using assms(1) by (simp add: row_matches_def list_ex_iff)
qed

text \<open>The specification's example: the query \<^verbatim>\<open>AB007\<close> returns the first row of \<^verbatim>\<open>Parts\<close> only.\<close>

theorem id_query_exact_match_witness:
  "looks_like_id ''AB007''
   \<and> keyword_search py_library [(''Parts'', parts_sheet)] ''AB007'' 100 (Some 1000)
       = Inr ([(''Parts'', \<lparr>columns = [''id'', ''name''], rows = [[''AB007'', ''Bolt'']]\<rparr>)],
              [(''Parts'', 1)], 1)
   \<and> (\<exists>c\<in>set [''AB007'', ''Bolt'']. lower (astype_str py_library c) = lower ''AB007'')"
proof -
  have a: "looks_like_id ''AB007''" by code_simp
  have b: "distinct (map fst [(''Parts'', parts_sheet)])" by simp
  have c: "list_all (\<lambda>(n, df). wf_df df) [(''Parts'', parts_sheet)]" by code_simp
  have d: "keyword_search py_library [(''Parts'', parts_sheet)] ''AB007'' 100 (Some 1000)
       = Inr ([(''Parts'', \<lparr>columns = [''id'', ''name''], rows = [[''AB007'', ''Bolt'']]\<rparr>)],
              [(''Parts'', 1)], 1)"
    by code_simp
  have e: "(''Parts'', \<lparr>columns = [''id'', ''name''], rows = [[''AB007'', ''Bolt'']]\<rparr>)
      \<in> set [(''Parts'', \<lparr>columns = [''id'', ''name''], rows = [[''AB007'', ''Bolt'']]\<rparr>)]"
    by simp
  have f: "[''AB007'', ''Bolt'']
      \<in> set (rows \<lparr>columns = [''id'', ''name''], rows = [[''AB007'', ''Bolt'']]\<rparr>)"
    by simp
  from id_query_exact_match[OF a b c d e f] a d show ?thesis by blast
qed

subsection \<open>Counts and total\<close>

text \<open>
  C4. Whatever the two caps are, the counts that \<^verbatim>\<open>keyword_search\<close> returns add up to the
  total it returns, there is one count per sheet, and the count of a sheet is the number
  of its rows that match, none left out by a cap.
\<close>

theorem counts_sum_to_total:
  assumes "distinct (map fst sheets)"
    and "list_all (\<lambda>(n, df). wf_df df) sheets"
    and "keyword_search L sheets q per_sheet_cap total_cap = Inr (results, counts, tot)"
  shows "sum_list (map snd counts) = tot
       \<and> map fst counts = map fst sheets
       \<and> (\<forall>(n, df)\<in>set sheets.
            map_of counts n = Some (int (length (filter (row_matches L q) (rows df)))))"
proof -
  note ch = keyword_search_char[OF assms(1,3)]
  have s: "sum_list (map snd counts) = tot"
    by (simp add: ch(1) ch(2) comp_def case_prod_unfold)
  have k: "map fst counts = map fst sheets"
    by (simp add: ch(1) comp_def case_prod_unfold)
  have c: "map_of counts n = Some (int (length (filter (row_matches L q) (rows df))))"
    if "(n, df) \<in> set sheets" for n df
  proof -
    have "wf_df df" using assms(2) that by (auto simp: list_all_iff)
    moreover have "df_empty df \<or> (\<exists>msk. keyword_match_mask L df q = Inr msk)"
      using ch(3) that by (auto simp: list_all_iff)
    ultimately have "match_count L q df = int (length (filter (row_matches L q) (rows df)))"
      by (rule match_count_rows)
    then show ?thesis
      using map_of_map_snd[OF assms(1) that, of "match_count L q"] by (simp add: ch(1))
  qed
  from s k c show ?thesis by auto
qed

text \<open>Two sheets with two matching rows each, both caps 1: the counts are 2 and 2, the total 4.\<close>

theorem counts_sum_to_total_witness:
  "keyword_search py_library two_sheets ''bolt'' 1 (Some 1)
     = Inr ([(''SheetA'', \<lparr>columns = [''item''], rows = [[''Bolt'']]\<rparr>)],
            [(''SheetB'', 2), (''SheetA'', 2)], 4)
   \<and> sum_list (map snd [(''SheetB'', 2), (''SheetA'', 2 :: int)]) = 4
   \<and> map_of [(''SheetB'', 2), (''SheetA'', 2 :: int)] ''SheetB''
       = Some (int (length (filter (row_matches py_library ''bolt'')
                              [[''Hex bolt''], [''Nut''], [''Bolt M8'']])))"
proof -
  have a: "distinct (map fst two_sheets)" by code_simp
  have b: "list_all (\<lambda>(n, df). wf_df df) two_sheets" by code_simp
  have c: "keyword_search py_library two_sheets ''bolt'' 1 (Some 1)
     = Inr ([(''SheetA'', \<lparr>columns = [''item''], rows = [[''Bolt'']]\<rparr>)],
            [(''SheetB'', 2), (''SheetA'', 2)], 4)"
    by code_simp
  have m: "(''SheetB'', \<lparr>columns = [''item''], rows = [[''Hex bolt''], [''Nut''], [''Bolt M8'']]\<rparr>)
      \<in> set two_sheets"
    by (simp add: two_sheets_def)
  from counts_sum_to_total[OF a b c] m c show ?thesis by fastforce
qed

subsection \<open>The caps\<close>

lemma sum_list_sort_distinct:
  fixes f :: "'a::linorder \<Rightarrow> int"
  assumes "distinct xs"
  shows "sum_list (map f (sort xs)) = sum_list (map f xs)"
proof -
  have "sum_list (map f (sort xs)) = sum f (set (sort xs))"
    using assms by (simp add: sum_list_distinct_conv_sum_set)
  also have "\<dots> = sum_list (map f xs)"
    using assms by (simp add: sum_list_distinct_conv_sum_set)
  finally show ?thesis .
qed

lemma total_rows_by_names:
  assumes "distinct (map fst cands)"
  shows "total_rows cands
     = sum_list (map (\<lambda>n. case map_of cands n of None \<Rightarrow> 0 | Some d \<Rightarrow> df_len d)
         (map fst cands))"
proof -
  have "((\<lambda>n. case map_of cands n of None \<Rightarrow> 0 | Some d \<Rightarrow> df_len d) \<circ> fst) x
      = (\<lambda>(n, d). df_len d) x" if "x \<in> set cands" for x
  proof -
    obtain n d where x: "x = (n, d)" by (cases x)
    then have "map_of cands n = Some d"
      using assms that by simp
    then show ?thesis by (simp add: x)
  qed
  then have "map ((\<lambda>n. case map_of cands n of None \<Rightarrow> 0 | Some d \<Rightarrow> df_len d) \<circ> fst) cands
      = map (\<lambda>(n, d). df_len d) cands"
    by (intro map_cong[OF refl])
  from this[symmetric] show ?thesis
    unfolding total_rows_def map_map by (rule arg_cong)
qed

lemma greedy_fill_exact:
  assumes "0 \<le> budget"
    and "budget < sum_list (map (\<lambda>n. case map_of cands n of None \<Rightarrow> 0 | Some d \<Rightarrow> df_len d) names)"
  shows "total_rows (greedy_fill budget names cands) = budget"
  using assms
proof (induction names arbitrary: budget)
  case Nil
  then show ?case by simp
next
  case (Cons name names)
  show ?case
  proof (cases "map_of cands name")
    case None
    then show ?thesis using Cons by simp
  next
    case (Some d)
    show ?thesis
    proof (cases "budget \<le> 0")
      case True
      then show ?thesis using Cons.prems Some by (simp add: total_rows_def)
    next
      case pos: False
      show ?thesis
      proof (cases "df_len d \<le> budget")
        case True
        have "total_rows (greedy_fill (budget - df_len d) names cands) = budget - df_len d"
          using Cons.prems Some True by (intro Cons.IH) auto
        then show ?thesis
          using Some pos True by (simp add: total_rows_def)
      next
        case False
        then show ?thesis
          using Some pos by (simp add: total_rows_def df_len_def df_head_def head_def)
      qed
    qed
  qed
qed

text \<open>
  C5. The caps are counts of rows, so they are not negative. With such a per-sheet cap no
  returned table has more rows than the cap, and with such a total cap the returned tables
  together have no more rows than it.
\<close>

theorem caps_bound_results:
  assumes "distinct (map fst sheets)"
    and "keyword_search L sheets q per_sheet_cap total_cap = Inr (results, counts, tot)"
  shows "(0 \<le> per_sheet_cap \<longrightarrow> (\<forall>(n, d)\<in>set results. df_len d \<le> per_sheet_cap))
       \<and> (\<forall>c. total_cap = Some c \<and> 0 \<le> c \<longrightarrow> total_rows results \<le> c)"
proof -
  have one: "df_len d \<le> per_sheet_cap" if cap: "0 \<le> per_sheet_cap" and mem: "(n, d) \<in> set results"
    for n d
  proof -
    from results_provenance[OF assms mem] obtain df where df: "0 < match_count L q df"
      "prefix (rows d) (rows (candidate L q per_sheet_cap df))"
      by blast
    from match_count_pos[OF df(1)] obtain msk where "keyword_match_mask L df q = Inr msk"
      by blast
    then have "df_len (candidate L q per_sheet_cap df) \<le> per_sheet_cap"
      using cap length_head_cap[OF cap, of "rows (df_loc df msk)"]
      by (simp add: candidate_def df_len_def df_head_def)
    moreover have "df_len d \<le> df_len (candidate L q per_sheet_cap df)"
      using df(2) by (simp add: df_len_def prefix_length_le)
    ultimately show ?thesis by linarith
  qed
  have two: "total_rows results \<le> c" if tc: "total_cap = Some c" and c: "0 \<le> c" for c
  proof -
    define cands where "cands = map (\<lambda>(n, df). (n, candidate L q per_sheet_cap df))
                     (filter (\<lambda>(n, df). 0 < match_count L q df) sheets)"
    have res: "results = (if c < tot then greedy_fill c (sort (map fst cands)) cands else cands)"
      using keyword_search_char(5)[OF assms] unfolding cands_def tc by simp
    have "total_rows cands \<le> tot"
      unfolding cands_def keyword_search_char(2)[OF assms] by (rule total_rows_candidates)
    then show ?thesis
      using res total_rows_greedy_fill[OF c, of "sort (map fst cands)" cands] by auto
  qed
  from one two show ?thesis by blast
qed

text \<open>Both caps 1 on the workbook of two sheets: one table of one row.\<close>

theorem caps_bound_results_witness:
  "keyword_search py_library two_sheets ''bolt'' 1 (Some 1)
     = Inr ([(''SheetA'', \<lparr>columns = [''item''], rows = [[''Bolt'']]\<rparr>)],
            [(''SheetB'', 2), (''SheetA'', 2)], 4)
   \<and> (0::int) \<le> 1
   \<and> df_len \<lparr>columns = [''item''], rows = [[''Bolt'']]\<rparr> \<le> 1
   \<and> total_rows [(''SheetA'', \<lparr>columns = [''item''], rows = [[''Bolt'']]\<rparr>)] \<le> 1"
proof -
  have a: "distinct (map fst two_sheets)" by code_simp
  have c: "keyword_search py_library two_sheets ''bolt'' 1 (Some 1)
     = Inr ([(''SheetA'', \<lparr>columns = [''item''], rows = [[''Bolt'']]\<rparr>)],
            [(''SheetB'', 2), (''SheetA'', 2)], 4)"
    by code_simp
  from caps_bound_results[OF a c] c show ?thesis by simp
qed

text \<open>
  A number below zero is no count of rows, and the code does not read it as one:
  \<^verbatim>\<open>head(-1)\<close> keeps all rows but the last, and a total cap of -1 leaves no table.
\<close>

lemma caps_below_zero:
  "keyword_search py_library [(''Parts'', parts_sheet)] ''bolt'' (- 1) (Some 1000)
     = Inr ([(''Parts'', \<lparr>columns = [''id'', ''name''], rows = [[''AB007'', ''Bolt'']]\<rparr>)],
            [(''Parts'', 2)], 2)
   \<and> keyword_search py_library [(''Parts'', parts_sheet)] ''bolt'' 100 (Some (- 1))
     = Inr ([], [(''Parts'', 2)], 2)"
  by code_simp

subsection \<open>Which sheets the counts and the results hold\<close>

text \<open>
  C10. The counts have an entry for every sheet, in the order of the workbook, and the
  entry of an empty sheet is 0. A sheet is in the results only if it is not empty and has
  a row that matches, and its table there is empty only if its candidate already was, which
  takes a per-sheet cap that keeps no row: the global truncation leaves no empty table, it
  leaves the sheet out.
\<close>

theorem counts_all_sheets_results_matching:
  assumes "distinct (map fst sheets)"
    and "list_all (\<lambda>(n, df). wf_df df) sheets"
    and "keyword_search L sheets q per_sheet_cap total_cap = Inr (results, counts, tot)"
  shows "map fst counts = map fst sheets
       \<and> (\<forall>(n, df)\<in>set sheets. df_empty df \<longrightarrow> map_of counts n = Some 0)
       \<and> (\<forall>(n, d)\<in>set results.
            \<exists>df. (n, df) \<in> set sheets \<and> \<not> df_empty df
               \<and> (\<exists>r\<in>set (rows df). row_matches L q r)
               \<and> (rows d = [] \<longrightarrow> rows (candidate L q per_sheet_cap df) = []))"
proof -
  note ch = keyword_search_char[OF assms(1,3)]
  have k: "map fst counts = map fst sheets"
    by (simp add: ch(1) comp_def case_prod_unfold)
  have e: "map_of counts n = Some 0" if "(n, df) \<in> set sheets" "df_empty df" for n df
    using map_of_map_snd[OF assms(1) that(1), of "match_count L q"] that(2)
    by (simp add: ch(1) match_count_def)
  have r: "\<exists>df. (n, df) \<in> set sheets \<and> \<not> df_empty df
               \<and> (\<exists>r\<in>set (rows df). row_matches L q r)
               \<and> (rows d = [] \<longrightarrow> rows (candidate L q per_sheet_cap df) = [])"
    if mem: "(n, d) \<in> set results" for n d
  proof -
    from results_provenance[OF assms(1,3) mem] obtain df where df: "(n, df) \<in> set sheets"
      "0 < match_count L q df" "rows d = [] \<longrightarrow> rows (candidate L q per_sheet_cap df) = []"
      by blast
    have wf: "wf_df df" using assms(2) df(1) by (auto simp: list_all_iff)
    from match_count_pos[OF df(2)] have ne: "\<not> df_empty df"
      and ok: "df_empty df \<or> (\<exists>msk. keyword_match_mask L df q = Inr msk)" by auto
    have "0 < length (filter (row_matches L q) (rows df))"
      using df(2) match_count_rows[OF wf ok] by simp
    then have "\<exists>r\<in>set (rows df). row_matches L q r"
      by (metis filter_False length_greater_0_conv)
    then show ?thesis using df ne by blast
  qed
  from k e r show ?thesis by blast
qed

text \<open>An empty sheet, a sheet with no match and \<^verbatim>\<open>Parts\<close>: three counts, one table.\<close>

theorem counts_all_sheets_results_matching_witness:
  "keyword_search py_library
      [(''Empty'', \<lparr>columns = [''item''], rows = []\<rparr>),
       (''None'', \<lparr>columns = [''item''], rows = [[''Nut'']]\<rparr>),
       (''Parts'', parts_sheet)] ''bolt'' 100 (Some 1000)
     = Inr ([(''Parts'', \<lparr>columns = [''id'', ''name''],
                          rows = [[''AB007'', ''Bolt''], [''AB107'', ''Bolt Long'']]\<rparr>)],
            [(''Empty'', 0), (''None'', 0), (''Parts'', 2)], 2)
   \<and> df_empty \<lparr>columns = [''item''], rows = ([] :: string list list)\<rparr>
   \<and> map_of [(''Empty'', 0), (''None'', 0), (''Parts'', 2 :: int)] ''Empty'' = Some 0
   \<and> (\<exists>df. (''Parts'', df) \<in> set [(''Empty'', \<lparr>columns = [''item''], rows = []\<rparr>),
       (''None'', \<lparr>columns = [''item''], rows = [[''Nut'']]\<rparr>),
       (''Parts'', parts_sheet)] \<and> (\<exists>r\<in>set (rows df). row_matches py_library ''bolt'' r))"
proof -
  let ?wb = "[(''Empty'', \<lparr>columns = [''item''], rows = []\<rparr>),
       (''None'', \<lparr>columns = [''item''], rows = [[''Nut'']]\<rparr>),
       (''Parts'', parts_sheet)]"
  have a: "distinct (map fst ?wb)" by simp
  have b: "list_all (\<lambda>(n, df). wf_df df) ?wb" by code_simp
  have c: "keyword_search py_library ?wb ''bolt'' 100 (Some 1000)
     = Inr ([(''Parts'', \<lparr>columns = [''id'', ''name''],
                          rows = [[''AB007'', ''Bolt''], [''AB107'', ''Bolt Long'']]\<rparr>)],
            [(''Empty'', 0), (''None'', 0), (''Parts'', 2)], 2)"
    by code_simp
  have d: "df_empty \<lparr>columns = [''item''], rows = ([] :: string list list)\<rparr>"
    by (simp add: df_empty_def)
  from counts_all_sheets_results_matching[OF a b c] c d show ?thesis
    by (simp del: distinct.simps)
qed

subsection \<open>The global truncation\<close>

text \<open>
  C6. The candidates are the tables returned when there is no total cap, one for each sheet
  with a match, in the order of the workbook. When they hold more rows together than the
  total cap \<open>c\<close>, the results are \<open>greedy_fill\<close> over the candidates' names in lexicographic
  order: whole tables while they fit, then the leading rows of the first that does not,
  and no later sheet; counts and total are those returned without a total cap; and for
  \<open>c\<close> not negative exactly \<open>c\<close> rows are returned.
\<close>

theorem global_cap_greedy_fill:
  assumes "distinct (map fst sheets)"
    and "keyword_search L sheets q per_sheet_cap None = Inr (cands, counts, tot)"
    and "c < total_rows cands"
  shows "keyword_search L sheets q per_sheet_cap (Some c)
           = Inr (greedy_fill c (sort (map fst cands)) cands, counts, tot)
       \<and> cands = map (\<lambda>(n, df). (n, candidate L q per_sheet_cap df))
                   (filter (\<lambda>(n, df). 0 < match_count L q df) sheets)
       \<and> (0 \<le> c \<longrightarrow> total_rows (greedy_fill c (sort (map fst cands)) cands) = c)"
proof -
  note ch = keyword_search_char[OF assms(1,2)]
  have cands: "cands = map (\<lambda>(n, df). (n, candidate L q per_sheet_cap df))
                   (filter (\<lambda>(n, df). 0 < match_count L q df) sheets)"
    using ch(5) by simp
  have loop: "search_sheets L q per_sheet_cap sheets ([], [], 0) = Inr (cands, counts, tot)"
    using ch(4) cands by simp
  have "total_rows cands \<le> tot"
    unfolding cands ch(2) by (rule total_rows_candidates)
  then have gt: "c < tot" using assms(3) by simp
  have dk: "distinct (map fst cands)"
    using assms(1) by (simp add: cands comp_def case_prod_unfold distinct_map_filter)
  then have "distinct (sort (map fst cands))" by simp
  then have trim: "trim_loop cands (sort (map fst cands)) ([], c)
       = Inr (greedy_fill c (sort (map fst cands)) cands)"
    using trim_loop_char[of "sort (map fst cands)" cands "[]" c] by simp
  have run: "keyword_search L sheets q per_sheet_cap (Some c)
           = Inr (greedy_fill c (sort (map fst cands)) cands, counts, tot)"
    using loop gt trim by (simp add: keyword_search_def)
  have exact: "total_rows (greedy_fill c (sort (map fst cands)) cands) = c" if "0 \<le> c"
  proof -
    let ?f = "\<lambda>n. case map_of cands n of None \<Rightarrow> 0 | Some d \<Rightarrow> df_len d"
    have "sum_list (map ?f (sort (map fst cands))) = sum_list (map ?f (map fst cands))"
      using dk by (rule sum_list_sort_distinct)
    also have "\<dots> = total_rows cands"
      using total_rows_by_names[OF dk] by simp
    finally have "c < sum_list (map ?f (sort (map fst cands)))"
      using assms(3) by simp
    with that show ?thesis by (rule greedy_fill_exact)
  qed
  from run cands exact show ?thesis by blast
qed

text \<open>
  The specification's example: two sheets with two matches each, both caps 1. One row is
  returned, of \<^verbatim>\<open>SheetA\<close>, though \<^verbatim>\<open>SheetB\<close> was loaded first; the counts stay 2 and 2, the
  total 4.
\<close>

theorem global_cap_greedy_fill_witness:
  "keyword_search py_library two_sheets ''bolt'' 1 None
     = Inr ([(''SheetB'', \<lparr>columns = [''item''], rows = [[''Hex bolt'']]\<rparr>),
             (''SheetA'', \<lparr>columns = [''item''], rows = [[''Bolt'']]\<rparr>)],
            [(''SheetB'', 2), (''SheetA'', 2)], 4)
   \<and> 1 < total_rows [(''SheetB'', \<lparr>columns = [''item''], rows = [[''Hex bolt'']]\<rparr>),
                      (''SheetA'', \<lparr>columns = [''item''], rows = [[''Bolt'']]\<rparr>)]
   \<and> keyword_search py_library two_sheets ''bolt'' 1 (Some 1)
     = Inr ([(''SheetA'', \<lparr>columns = [''item''], rows = [[''Bolt'']]\<rparr>)],
            [(''SheetB'', 2), (''SheetA'', 2)], 4)"
proof -
  let ?cands = "[(''SheetB'', \<lparr>columns = [''item''], rows = [[''Hex bolt'']]\<rparr>),
             (''SheetA'', \<lparr>columns = [''item''], rows = [[''Bolt'']]\<rparr>)]"
  have a: "distinct (map fst two_sheets)" by code_simp
  have b: "keyword_search py_library two_sheets ''bolt'' 1 None
     = Inr (?cands, [(''SheetB'', 2), (''SheetA'', 2)], 4)"
    by code_simp
  have c: "1 < total_rows ?cands" by code_simp
  have d: "greedy_fill 1 (sort (map fst ?cands)) ?cands
     = [(''SheetA'', \<lparr>columns = [''item''], rows = [[''Bolt'']]\<rparr>)]"
    by code_simp
  have "keyword_search py_library two_sheets ''bolt'' 1 (Some 1)
     = Inr (greedy_fill 1 (sort (map fst ?cands)) ?cands, [(''SheetB'', 2), (''SheetA'', 2)], 4)"
    using global_cap_greedy_fill[OF a b c] by (rule conjunct1)
  then have e: "keyword_search py_library two_sheets ''bolt'' 1 (Some 1)
     = Inr ([(''SheetA'', \<lparr>columns = [''item''], rows = [[''Bolt'']]\<rparr>)],
            [(''SheetB'', 2), (''SheetA'', 2)], 4)"
    by (simp only: d)
  from b c e show ?thesis by (intro conjI)
qed

subsection \<open>Queries that are not identifiers\<close>

text \<open>
  In the concrete model, a query without special characters compiles to the sequence of
  its characters, which is found in a text exactly when the text contains the query, case
  ignored: for such a query the rows that match are those with a cell that contains it.
\<close>

lemma sre_parse_ordinary:
  assumes "\<not> is_special c"
  shows "sre_parse (c # cs) (alts, items) [] = sre_parse cs (alts, Lit c # items) []"
  using assms by (simp add: is_special_def is_repeat_char_def)

lemma sre_parse_literal:
  "list_all (\<lambda>c. \<not> is_special c) cs
     \<Longrightarrow> sre_parse cs (alts, items) [] = Inr (close_frame (alts, rev (map Lit cs) @ items))"
proof (induction cs arbitrary: items)
  case Nil
  then show ?case by simp
next
  case (Cons c cs)
  then have c: "\<not> is_special c" and cs: "list_all (\<lambda>c. \<not> is_special c) cs" by simp_all
  have "sre_parse (c # cs) (alts, items) [] = sre_parse cs (alts, Lit c # items) []"
    using c by (rule sre_parse_ordinary)
  also have "\<dots> = Inr (close_frame (alts, rev (map Lit cs) @ Lit c # items))"
    by (rule Cons.IH[OF cs])
  finally show ?case by (simp del: sre_parse.simps)
qed

lemma compile_literal:
  "list_all (\<lambda>c. \<not> is_special c) q \<Longrightarrow> py_re_compile q = Inr (cat_list (map Lit q))"
  by (simp add: py_re_compile_def sre_parse_literal close_frame_def)

lemma ends_literal:
  assumes "\<forall>i\<in>set S. i \<le> length t"
  shows "set (ends (cat_list (map Lit q)) t S)
       = {i + length q | i. i \<in> set S \<and> i + length q \<le> length t
                           \<and> lower (take (length q) (drop i t)) = lower q}"
  using assms
proof (induction q arbitrary: S)
  case Nil
  then show ?case by (auto simp: cat_list_def lower_def)
next
  case (Cons c q)
  let ?S1 = "ends (Lit c) t S"
  have S1: "set ?S1 = {Suc i | i. i \<in> set S \<and> i < length t \<and> lower_char (t ! i) = lower_char c}"
    by auto
  then have bound: "\<forall>i\<in>set ?S1. i \<le> length t" by auto
  have step: "ends (cat_list (map Lit (c # q))) t S = ends (cat_list (map Lit q)) t ?S1"
    by (simp add: cat_list_def)
  have "set (ends (cat_list (map Lit q)) t ?S1)
      = {j + length q | j. j \<in> set ?S1 \<and> j + length q \<le> length t
                           \<and> lower (take (length q) (drop j t)) = lower q}"
    by (rule Cons.IH[OF bound])
  also have "\<dots> = {i + length (c # q) | i. i \<in> set S \<and> i + length (c # q) \<le> length t
                           \<and> lower (take (length (c # q)) (drop i t)) = lower (c # q)}"
    (is "?A = ?B")
  proof (rule set_eqI, rule iffI)
    fix x assume "x \<in> ?A"
    then obtain j where j: "x = j + length q" "j \<in> set ?S1" "j + length q \<le> length t"
        "lower (take (length q) (drop j t)) = lower q"
      by blast
    from j(2) S1 obtain i where i: "j = Suc i" "i \<in> set S" "i < length t"
        "lower_char (t ! i) = lower_char c"
      by blast
    have "drop i t = t ! i # drop (Suc i) t"
      using i(3) by (simp add: Cons_nth_drop_Suc)
    then have "lower (take (length (c # q)) (drop i t)) = lower (c # q)"
      using j(4) i(1,4) by (simp add: lower_def)
    then show "x \<in> ?B"
      using j(1,3) i(1,2) by force
  next
    fix x assume "x \<in> ?B"
    then obtain i where i: "x = i + length (c # q)" "i \<in> set S" "i + length (c # q) \<le> length t"
        "lower (take (length (c # q)) (drop i t)) = lower (c # q)"
      by blast
    have lt: "i < length t" using i(3) by simp
    then have d: "drop i t = t ! i # drop (Suc i) t"
      by (simp add: Cons_nth_drop_Suc)
    from i(4) have "lower_char (t ! i) = lower_char c"
      and "lower (take (length q) (drop (Suc i) t)) = lower q"
      by (simp_all add: d lower_def)
    then have "Suc i \<in> set ?S1" and "Suc i + length q \<le> length t"
      using S1 i(2,3) lt by auto
    then show "x \<in> ?A"
      using i(1) \<open>lower (take (length q) (drop (Suc i) t)) = lower q\<close> by force
  qed
  finally show ?case by (simp only: step)
qed

lemma sublist_take_drop:
  "sublist xs ys \<longleftrightarrow> (\<exists>i. i + length xs \<le> length ys \<and> take (length xs) (drop i ys) = xs)"
proof
  assume "sublist xs ys"
  then obtain ps ss where "ys = ps @ xs @ ss" by (auto simp: sublist_def)
  then have "length ps + length xs \<le> length ys \<and> take (length xs) (drop (length ps) ys) = xs"
    by simp
  then show "\<exists>i. i + length xs \<le> length ys \<and> take (length xs) (drop i ys) = xs" by blast
next
  assume "\<exists>i. i + length xs \<le> length ys \<and> take (length xs) (drop i ys) = xs"
  then obtain i where i: "i + length xs \<le> length ys" "take (length xs) (drop i ys) = xs"
    by blast
  have "drop i ys = take (length xs) (drop i ys) @ drop (length xs) (drop i ys)"
    by (simp only: append_take_drop_id)
  then have "drop i ys = xs @ drop (length xs) (drop i ys)"
    by (simp only: i(2))
  then have "ys = take i ys @ xs @ drop (length xs) (drop i ys)"
    by (metis append_take_drop_id)
  then show "sublist xs ys" unfolding sublist_def by blast
qed

lemma search_literal:
  "py_re_search (cat_list (map Lit q)) t = contains_literal t q"
proof -
  have "set (ends (cat_list (map Lit q)) t [0..<Suc (length t)])
       = {i + length q | i. i \<in> set [0..<Suc (length t)] \<and> i + length q \<le> length t
                           \<and> lower (take (length q) (drop i t)) = lower q}"
    by (rule ends_literal) auto
  then have "py_re_search (cat_list (map Lit q)) t
      \<longleftrightarrow> (\<exists>i. i + length q \<le> length t \<and> lower (take (length q) (drop i t)) = lower q)"
    unfolding py_re_search_def set_empty[symmetric] by auto
  also have "\<dots> \<longleftrightarrow> (\<exists>i. i + length (lower q) \<le> length (lower t)
                       \<and> take (length (lower q)) (drop i (lower t)) = lower q)"
    by (simp add: lower_def take_map drop_map)
  also have "\<dots> \<longleftrightarrow> sublist (lower q) (lower t)"
    by (rule sublist_take_drop[symmetric])
  finally show ?thesis by (simp add: contains_literal_def)
qed

lemma literal_query_row_matches:
  assumes "\<not> looks_like_id q" and "list_all (\<lambda>c. \<not> is_special c) q"
  shows "row_matches py_library q r = list_ex (\<lambda>cell. contains_literal cell q) r"
  using assms
  by (simp add: row_matches_def py_library_def compile_literal search_literal)

text \<open>
  A query that is an identifier, or that \<^verbatim>\<open>re.compile\<close> accepts, never makes
  \<^verbatim>\<open>keyword_search\<close> raise: the exception of \<^verbatim>\<open>re.compile\<close> is the only one there is.
\<close>

lemma keyword_match_mask_returns:
  assumes "looks_like_id q \<or> (\<exists>p. re_compile L q = Inr p)" and "columns df \<noteq> []"
  shows "\<exists>msk. keyword_match_mask L df q = Inr msk"
proof -
  let ?n = "length (columns df)"
  have up: "[0..<?n] = 0 # [1..<?n]"
    using assms(2) by (simp add: upt_conv_Cons)
  show ?thesis
  proof (cases "looks_like_id q")
    case True
    then show ?thesis
      by (simp add: keyword_match_mask_def coerce_to_str_def up Let_def)
  next
    case False
    then obtain p where p: "re_compile L q = Inr p" using assms(1) by auto
    have sq: "sequence (map (\<lambda>j. Inr (g j) :: py_error + bool list) js) = Inr (map g js)" for g js
      by (rule sequence_Inr)
    show ?thesis
      using False p
      by (simp add: keyword_match_mask_def coerce_to_str_def str_contains_def sq up Let_def
          del: upt_Suc)
  qed
qed

lemma search_sheets_returns:
  assumes "looks_like_id q \<or> (\<exists>p. re_compile L q = Inr p)"
  shows "\<exists>res' cnt' t'. search_sheets L q cap sheets (res, cnt, t) = Inr (res', cnt', t')"
proof (induction sheets arbitrary: res cnt t)
  case Nil
  then show ?case by simp
next
  case (Cons s sheets)
  obtain name df where s: "s = (name, df)" by (cases s)
  show ?case
  proof (cases "df_empty df")
    case True
    then show ?thesis using Cons s by simp
  next
    case False
    then have "columns df \<noteq> []" by (simp add: df_empty_def)
    from keyword_match_mask_returns[OF assms this] obtain msk
      where "keyword_match_mask L df q = Inr msk" by blast
    then show ?thesis using Cons s False by (simp add: Let_def)
  qed
qed

lemma keyword_search_returns:
  assumes "looks_like_id q \<or> (\<exists>p. re_compile L q = Inr p)" and "distinct (map fst sheets)"
  shows "\<exists>results counts tot. keyword_search L sheets q cap total_cap = Inr (results, counts, tot)"
proof -
  from search_sheets_returns[OF assms(1)] obtain res cnt t
    where loop: "search_sheets L q cap sheets ([], [], 0) = Inr (res, cnt, t)"
    by blast
  have "res = map (\<lambda>(n, df). (n, candidate L q cap df))
                        (filter (\<lambda>(n, df). 0 < match_count L q df) sheets)"
    using search_sheets_char[OF assms(2) _ _ loop] by simp
  then have "distinct (map fst res)"
    using assms(2) by (simp add: comp_def case_prod_unfold distinct_map_filter)
  then have "distinct (sort (map fst res))" by simp
  then have trim: "trim_loop res (sort (map fst res)) ([], c)
      = Inr (greedy_fill c (sort (map fst res)) res)" for c
    using trim_loop_char[of "sort (map fst res)" res "[]" c] by simp
  show ?thesis
  proof (cases total_cap)
    case None
    then show ?thesis using loop by (simp add: keyword_search_def)
  next
    case (Some c)
    then show ?thesis using loop trim[of c] by (simp add: keyword_search_def)
  qed
qed

text \<open>
  C2. The query \<^verbatim>\<open>AB.07\<close> is not an identifier, so it is searched with
  \<^verbatim>\<open>str.contains\<close>, which reads it as a regular expression: both \<^verbatim>\<open>AB007\<close> and
  \<^verbatim>\<open>AB107\<close> match and their rows are counted and returned, though no cell of either row
  contains \<^verbatim>\<open>AB.07\<close>.
\<close>

theorem regex_query_not_substring:
  "\<not> looks_like_id ''AB.07''
   \<and> keyword_search py_library [(''Parts'', parts_sheet)] ''AB.07'' 100 (Some 1000)
       = Inr ([(''Parts'', \<lparr>columns = [''id'', ''name''],
                            rows = [[''AB007'', ''Bolt''], [''AB107'', ''Bolt Long'']]\<rparr>)],
              [(''Parts'', 2)], 2)
   \<and> \<not> list_ex (\<lambda>cell. contains_literal cell ''AB.07'') [''AB007'', ''Bolt'']
   \<and> \<not> list_ex (\<lambda>cell. contains_literal cell ''AB.07'') [''AB107'', ''Bolt Long'']"
  by code_simp

text \<open>
  C3. A query that is not a well-formed regular expression makes \<^verbatim>\<open>keyword_search\<close>
  raise \<^verbatim>\<open>re.error\<close>: a lone \<^verbatim>\<open>(\<close>, a phrase with an open parenthesis, a lone \<^verbatim>\<open>*\<close>.
\<close>

theorem unbalanced_query_raises:
  "\<not> looks_like_id ''(''
   \<and> keyword_search py_library [(''Parts'', parts_sheet)] ''('' 100 (Some 1000) = Inl ReError
   \<and> keyword_search py_library [(''Parts'', parts_sheet)] ''bolt (m8'' 100 (Some 1000) = Inl ReError
   \<and> keyword_search py_library [(''Parts'', parts_sheet)] ''*'' 100 (Some 1000) = Inl ReError"
  by code_simp

section \<open>Properties of the semantic index\<close>

subsection \<open>What \<^verbatim>\<open>build\<close> stores\<close>

lemma set_update_subset: "set (AList.update k v al) \<subseteq> insert (k, v) (set al)"
  by (induction al) auto

lemma prefix_head: "prefix (head n xs) xs"
  by (simp add: head_def take_is_prefix)

lemma leading_rows_use_df:
  "leading_rows lim df (case lim of None \<Rightarrow> df | Some n \<Rightarrow> df_head n df)"
  by (cases lim) (simp_all add: leading_rows_def df_head_def prefix_head, simp add: head_def)

lemma sequence_length: "sequence xs = Inr vs \<Longrightarrow> length vs = length xs"
  by (induction xs arbitrary: vs) (auto split: sum.splits)

lemma row_texts_length: "row_texts L df = Inr texts \<Longrightarrow> length texts = length (rows df)"
  by (auto simp: row_texts_def split: if_splits option.splits dest: sequence_length)

lemma build_loop_step:
  assumes "build_loop L lim ((name, df) # rest) sem = (sem', err)"
  defines "use_df \<equiv> (case lim of None \<Rightarrow> df | Some n \<Rightarrow> df_head n df)"
  shows "sem' = sem
       \<or> build_loop L lim rest sem = (sem', err)
       \<or> (\<exists>vec texts. row_texts L use_df = Inr texts
             \<and> build_loop L lim rest
                   \<lparr>vectorizers = AList.update name vec (vectorizers sem),
                    matrices = AList.update name (map (transform L vec) texts) (matrices sem),
                    sem_rows = AList.update name use_df (sem_rows sem)\<rparr> = (sem', err))"
proof (cases "row_texts L use_df")
  case (Inl e)
  then show ?thesis using assms(1) by (simp add: use_df_def Let_def)
next
  case texts: (Inr texts)
  show ?thesis
  proof (cases "texts = []")
    case True
    then show ?thesis using assms(1) texts by (simp add: use_df_def Let_def)
  next
    case False
    then show ?thesis
      using assms(1) texts by (cases "fit L texts") (auto simp: use_df_def Let_def)
  qed
qed

lemma build_loop_stored:
  assumes "build_loop L lim rest sem = (sem', err)"
    and "set rest \<subseteq> set sheets"
    and "\<forall>(name, stored)\<in>set (sem_rows sem). \<exists>df. (name, df) \<in> set sheets \<and> leading_rows lim df stored"
  shows "\<forall>(name, stored)\<in>set (sem_rows sem'). \<exists>df. (name, df) \<in> set sheets \<and> leading_rows lim df stored"
  using assms
proof (induction rest arbitrary: sem)
  case Nil
  then show ?case by simp
next
  case (Cons s rest)
  obtain name df where s: "s = (name, df)" by (cases s)
  define use_df where "use_df = (case lim of None \<Rightarrow> df | Some n \<Rightarrow> df_head n df)"
  have mem: "(name, df) \<in> set sheets" and sub: "set rest \<subseteq> set sheets"
    using Cons.prems(2) s by auto
  have lead: "leading_rows lim df use_df"
    unfolding use_df_def by (rule leading_rows_use_df)
  from build_loop_step[OF Cons.prems(1)[unfolded s]]
  consider "sem' = sem" | "build_loop L lim rest sem = (sem', err)"
    | vec texts where "build_loop L lim rest
                   \<lparr>vectorizers = AList.update name vec (vectorizers sem),
                    matrices = AList.update name (map (transform L vec) texts) (matrices sem),
                    sem_rows = AList.update name use_df (sem_rows sem)\<rparr> = (sem', err)"
    unfolding use_df_def by blast
  then show ?case
  proof cases
    case 1
    then show ?thesis using Cons.prems(3) by simp
  next
    case 2
    then show ?thesis using Cons.IH sub Cons.prems(3) by blast
  next
    case 3
    let ?sem1 = "\<lparr>vectorizers = AList.update name vec (vectorizers sem),
                    matrices = AList.update name (map (transform L vec) texts) (matrices sem),
                    sem_rows = AList.update name use_df (sem_rows sem)\<rparr>"
    have "\<forall>(name, stored)\<in>set (sem_rows ?sem1). \<exists>df. (name, df) \<in> set sheets \<and> leading_rows lim df stored"
      using Cons.prems(3) mem lead set_update_subset[of name use_df "sem_rows sem"]
      by auto
    from Cons.IH[OF 3 sub this] show ?thesis .
  qed
qed

lemma build_loop_aligned:
  assumes "build_loop L lim rest sem = (sem', err)" and "aligned sem"
  shows "aligned sem'"
  using assms
proof (induction rest arbitrary: sem)
  case Nil
  then show ?case by simp
next
  case (Cons s rest)
  obtain name df where s: "s = (name, df)" by (cases s)
  define use_df where "use_df = (case lim of None \<Rightarrow> df | Some n \<Rightarrow> df_head n df)"
  from build_loop_step[OF Cons.prems(1)[unfolded s]]
  consider "sem' = sem" | "build_loop L lim rest sem = (sem', err)"
    | vec texts where "row_texts L use_df = Inr texts" "build_loop L lim rest
                   \<lparr>vectorizers = AList.update name vec (vectorizers sem),
                    matrices = AList.update name (map (transform L vec) texts) (matrices sem),
                    sem_rows = AList.update name use_df (sem_rows sem)\<rparr> = (sem', err)"
    unfolding use_df_def by blast
  then show ?case
  proof cases
    case 1
    then show ?thesis using Cons.prems(2) by simp
  next
    case 2
    then show ?thesis using Cons.IH Cons.prems(2) by blast
  next
    case 3
    let ?sem1 = "\<lparr>vectorizers = AList.update name vec (vectorizers sem),
                    matrices = AList.update name (map (transform L vec) texts) (matrices sem),
                    sem_rows = AList.update name use_df (sem_rows sem)\<rparr>"
    have "length texts = length (rows use_df)"
      using 3(1) by (rule row_texts_length)
    then have "aligned ?sem1"
      using Cons.prems(2)
      by (auto simp: aligned_def distinct_update update_conv')
    from Cons.IH[OF 3(2) this] show ?thesis .
  qed
qed

text \<open>
  C8. Whatever \<^verbatim>\<open>build\<close> stored for a sheet, also when a later sheet made it raise, is
  the sheet's leading rows and never a sample: the columns are the sheet's, the rows are a
  prefix of the sheet's rows, so the row at a position of the stored table is the row at
  that position of the sheet; with a limit, which is a count and so not negative, they are
  the first rows up to the limit, and with no limit the whole sheet. The matrix stored
  with it has one row per stored row.
\<close>

theorem index_rows_are_leading_rows:
  assumes "build L sheets per_sheet_limit sem0 = (sem, err)"
    and "(name, stored) \<in> set (sem_rows sem)"
  shows "(\<exists>df. (name, df) \<in> set sheets \<and> columns stored = columns df
            \<and> prefix (rows stored) (rows df)
            \<and> (\<forall>i<length (rows stored). rows stored ! i = rows df ! i)
            \<and> (\<forall>n. per_sheet_limit = Some n \<and> 0 \<le> n \<longrightarrow> rows stored = take (nat n) (rows df))
            \<and> (per_sheet_limit = None \<longrightarrow> stored = df))
       \<and> (\<exists>X. map_of (matrices sem) name = Some X \<and> length X = length (rows stored))"
proof -
  have run: "build_loop L per_sheet_limit sheets \<lparr>vectorizers = [], matrices = [], sem_rows = []\<rparr>
      = (sem, err)"
    using assms(1) by (simp add: build_def)
  have "\<forall>(name, stored)\<in>set (sem_rows sem).
          \<exists>df. (name, df) \<in> set sheets \<and> leading_rows per_sheet_limit df stored"
    by (rule build_loop_stored[OF run]) simp_all
  then obtain df where df: "(name, df) \<in> set sheets" "leading_rows per_sheet_limit df stored"
    using assms(2) by blast
  have nth: "rows stored ! i = rows df ! i" if "i < length (rows stored)" for i
    using df(2) that by (auto simp: leading_rows_def prefix_def nth_append)
  have whole: "stored = df" if "per_sheet_limit = None"
    using df(2) that by (simp add: leading_rows_def)
  have "aligned sem"
    by (rule build_loop_aligned[OF run]) (simp add: aligned_def)
  then have "\<exists>X. map_of (matrices sem) name = Some X \<and> length X = length (rows stored)"
    using assms(2) by (simp add: aligned_def)
  then show ?thesis
    using df nth whole by (auto simp: leading_rows_def)
qed

text \<open>The limit 2 on \<^verbatim>\<open>Parts\<close>: its first two rows are stored.\<close>

theorem index_rows_are_leading_rows_witness:
  "build sample_sem_library [(''Parts'', parts_sheet)] (Some 2) empty_index
     = (\<lparr>vectorizers = [(''Parts'', [''AB007 | Bolt'', ''AB107 | Bolt Long''])],
         matrices = [(''Parts'', [''AB007 | Bolt'', ''AB107 | Bolt Long''])],
         sem_rows = [(''Parts'', \<lparr>columns = [''id'', ''name''],
                                  rows = [[''AB007'', ''Bolt''], [''AB107'', ''Bolt Long'']]\<rparr>)]\<rparr>,
        None)
   \<and> (\<exists>df. (''Parts'', df) \<in> set [(''Parts'', parts_sheet)]
          \<and> prefix [[''AB007'', ''Bolt''], [''AB107'', ''Bolt Long'']] (rows df)
          \<and> [[''AB007'', ''Bolt''], [''AB107'', ''Bolt Long'']] = take (nat 2) (rows df))"
proof -
  let ?stored = "\<lparr>columns = [''id'', ''name''],
                  rows = [[''AB007'', ''Bolt''], [''AB107'', ''Bolt Long'']]\<rparr>"
  let ?sem = "\<lparr>vectorizers = [(''Parts'', [''AB007 | Bolt'', ''AB107 | Bolt Long''])],
         matrices = [(''Parts'', [''AB007 | Bolt'', ''AB107 | Bolt Long''])],
         sem_rows = [(''Parts'', ?stored)]\<rparr>"
  have a: "build sample_sem_library [(''Parts'', parts_sheet)] (Some 2) empty_index = (?sem, None)"
    by code_simp
  have b: "(''Parts'', ?stored) \<in> set (sem_rows ?sem)"
    by simp
  from index_rows_are_leading_rows[OF a b] obtain df
    where df: "(''Parts'', df) \<in> set [(''Parts'', parts_sheet)]"
      "prefix (rows ?stored) (rows df)"
      "\<forall>n. Some 2 = Some n \<and> 0 \<le> n \<longrightarrow> rows ?stored = take (nat n) (rows df)"
    by blast
  have p: "prefix [[''AB007'', ''Bolt''], [''AB107'', ''Bolt Long'']] (rows df)"
    using df(2) by simp
  have "rows ?stored = take (nat 2) (rows df)"
    using df(3) by simp
  then have q: "[[''AB007'', ''Bolt''], [''AB107'', ''Bolt Long'']] = take (nat 2) (rows df)"
    by simp
  from a df(1) p q show ?thesis by blast
qed

text \<open>A sheet with no more rows than the limit is stored whole.\<close>

lemma short_sheet_stored_whole:
  "build sample_sem_library [(''Parts'', parts_sheet)] (Some 5000) empty_index
     = (\<lparr>vectorizers = [(''Parts'', [''AB007 | Bolt'', ''AB107 | Bolt Long'', ''CD007 | Nut''])],
         matrices = [(''Parts'', [''AB007 | Bolt'', ''AB107 | Bolt Long'', ''CD007 | Nut''])],
         sem_rows = [(''Parts'', parts_sheet)]\<rparr>,
        None)"
  by code_simp

subsection \<open>What \<^verbatim>\<open>search\<close> returns\<close>

lemma sorted_rev_head:
  fixes xs :: "'a::linorder list"
  assumes "sorted xs"
  shows "sorted (rev (head n (rev xs)))"
proof -
  have "rev (take k (rev xs)) = drop (length xs - k) xs" for k
    by (simp add: rev_take)
  then have "\<exists>k. rev (head n (rev xs)) = drop k xs"
    unfolding head_def by (metis length_rev)
  then show ?thesis
    using assms by (auto simp: sorted_wrt_drop)
qed

lemma search_loop_entries:
  assumes "search_loop L sem query top_k vecs out = Inr out'"
    and "set vecs \<subseteq> set (vectorizers sem)"
    and "(name, res) \<in> set out'"
  shows "(name, res) \<in> set out
       \<or> (\<exists>vec X stored.
            (name, vec) \<in> set (vectorizers sem) \<and> map_of (matrices sem) name = Some X
            \<and> map_of (sem_rows sem) name = Some stored
            \<and> (let sims = map (\<lambda>x. cosine L x (transform L vec query)) X;
                    idx = ranked L sims top_k
                in list_all (\<lambda>i. i < length (rows stored) \<and> i < length sims) idx
                   \<and> res = \<lparr>columns = ''_semantic_score'' # columns stored,
                            rows = map (\<lambda>i. Inl (sims ! i) # map Inr (rows stored ! i)) idx\<rparr>))"
  using assms
proof (induction vecs arbitrary: out)
  case Nil
  then show ?case by simp
next
  case (Cons v vecs)
  obtain n vec where v: "v = (n, vec)" by (cases v)
  have mem: "(n, vec) \<in> set (vectorizers sem)" and sub: "set vecs \<subseteq> set (vectorizers sem)"
    using Cons.prems(2) v by auto
  obtain X where X: "map_of (matrices sem) n = Some X"
    using Cons.prems(1) v by (cases "map_of (matrices sem) n") auto
  show ?case
  proof (cases "length X = 0")
    case True
    then have "search_loop L sem query top_k vecs out = Inr out'"
      using Cons.prems(1) v X by simp
    from Cons.IH[OF this sub Cons.prems(3)] show ?thesis .
  next
    case False
    define sims where "sims = map (\<lambda>x. cosine L x (transform L vec query)) X"
    define idx where "idx = ranked L sims top_k"
    obtain stored where st: "map_of (sem_rows sem) n = Some stored"
      using Cons.prems(1) v X False by (cases "map_of (sem_rows sem) n") (auto simp: Let_def)
    have ok: "list_all (\<lambda>i. i < length (rows stored) \<and> i < length sims) idx"
      and nocol: "''_semantic_score'' \<notin> set (columns stored)"
      using Cons.prems(1) v X False st
      by (auto simp: Let_def sims_def idx_def split: if_splits)
    define entry where "entry = \<lparr>columns = ''_semantic_score'' # columns stored,
                            rows = map (\<lambda>i. Inl (sims ! i) # map Inr (rows stored ! i)) idx\<rparr>"
    have run: "search_loop L sem query top_k vecs (AList.update n entry out) = Inr out'"
      using Cons.prems(1) v X False st ok nocol
      by (simp add: Let_def sims_def idx_def entry_def)
    from Cons.IH[OF run sub Cons.prems(3)] show ?thesis
    proof
      assume "(name, res) \<in> set (AList.update n entry out)"
      then have "(name, res) = (n, entry) \<or> (name, res) \<in> set out"
        using set_update_subset[of n entry out] by auto
      then show ?thesis
      proof
        assume "(name, res) = (n, entry)"
        then show ?thesis
          using mem X st ok by (auto simp: Let_def sims_def idx_def entry_def)
      qed simp
    qed simp
  qed
qed

text \<open>
  C7. \<^verbatim>\<open>argsort\<close> returns positions in ascending order of the values. Then every table
  that \<^verbatim>\<open>search\<close> returns has at most \<^verbatim>\<open>top_k_per_sheet\<close> rows, for a \<^verbatim>\<open>top_k_per_sheet\<close>
  that is not negative; the leading fields of its rows are scores that do not increase
  from one row to the next; and every row is a stored row of that sheet behind the cosine
  similarity of its matrix row to the query's row.
\<close>

theorem semantic_results_ranked:
  assumes "\<forall>sims. sorted (map (\<lambda>i. sims ! i) (argsort L sims))"
    and "search L sem query top_k_per_sheet = Inr out"
    and "(name, res) \<in> set out"
  shows "(0 \<le> top_k_per_sheet \<longrightarrow> int (length (rows res)) \<le> top_k_per_sheet)
       \<and> (\<exists>scores. map score_of (rows res) = map Some scores \<and> sorted (rev scores))
       \<and> (\<exists>vec X stored.
            (name, vec) \<in> set (vectorizers sem) \<and> map_of (matrices sem) name = Some X
            \<and> map_of (sem_rows sem) name = Some stored
            \<and> (\<forall>r\<in>set (rows res). \<exists>i. i < length X \<and> i < length (rows stored)
                  \<and> r = Inl (cosine L (X ! i) (transform L vec query)) # map Inr (rows stored ! i)))"
proof -
  have "search_loop L sem query top_k_per_sheet (vectorizers sem) [] = Inr out"
    using assms(2) by (simp add: search_def)
  from search_loop_entries[OF this _ assms(3)]
  obtain vec X stored where e: "(name, vec) \<in> set (vectorizers sem)"
      "map_of (matrices sem) name = Some X" "map_of (sem_rows sem) name = Some stored"
      "let sims = map (\<lambda>x. cosine L x (transform L vec query)) X;
           idx = ranked L sims top_k_per_sheet
       in list_all (\<lambda>i. i < length (rows stored) \<and> i < length sims) idx
          \<and> res = \<lparr>columns = ''_semantic_score'' # columns stored,
                   rows = map (\<lambda>i. Inl (sims ! i) # map Inr (rows stored ! i)) idx\<rparr>"
    by auto
  define sims where "sims = map (\<lambda>x. cosine L x (transform L vec query)) X"
  define idx where "idx = ranked L sims top_k_per_sheet"
  have ok: "list_all (\<lambda>i. i < length (rows stored) \<and> i < length sims) idx"
    and res: "rows res = map (\<lambda>i. Inl (sims ! i) # map Inr (rows stored ! i)) idx"
    using e(4) by (simp_all add: Let_def sims_def idx_def)
  have len: "int (length (rows res)) \<le> top_k_per_sheet" if "0 \<le> top_k_per_sheet"
    using length_head_cap[OF that, of "rev (argsort L sims)"]
    by (simp add: res idx_def ranked_def)
  have sc: "map score_of (rows res) = map Some (map (\<lambda>i. sims ! i) idx)"
    by (simp add: res score_of_def comp_def)
  have "sorted (map (\<lambda>i. sims ! i) (argsort L sims))"
    using assms(1) by blast
  then have "sorted (rev (head top_k_per_sheet (rev (map (\<lambda>i. sims ! i) (argsort L sims)))))"
    by (rule sorted_rev_head)
  moreover have "head top_k_per_sheet (rev (map (\<lambda>i. sims ! i) (argsort L sims)))
      = map (\<lambda>i. sims ! i) idx"
    by (simp add: idx_def ranked_def head_def rev_map take_map)
  ultimately have so: "sorted (rev (map (\<lambda>i. sims ! i) idx))" by simp
  have rowsP: "\<exists>i. i < length X \<and> i < length (rows stored)
                  \<and> r = Inl (cosine L (X ! i) (transform L vec query)) # map Inr (rows stored ! i)"
    if "r \<in> set (rows res)" for r
  proof -
    from that obtain i where i: "i \<in> set idx" "r = Inl (sims ! i) # map Inr (rows stored ! i)"
      by (auto simp: res)
    then have "i < length (rows stored)" "i < length sims"
      using ok by (auto simp: list_all_iff)
    then show ?thesis
      using i by (auto simp: sims_def)
  qed
  from len sc so rowsP e(1,2,3) show ?thesis by blast
qed

text \<open>The two best rows of \<^verbatim>\<open>Parts\<close> for the query \<^verbatim>\<open>bolt long\<close>, best first.\<close>

lemma sample_argsort_sorted:
  "sorted (map (\<lambda>i. sims ! i) (argsort sample_sem_library sims))"
  by (simp add: sample_sem_library_def sorted_sort_key)

theorem semantic_results_ranked_witness:
  "(0::int) \<le> 2
   \<and> search sample_sem_library
        \<lparr>vectorizers = [(''Parts'', [''AB007 | Bolt'', ''AB107 | Bolt Long'', ''CD007 | Nut''])],
         matrices = [(''Parts'', [''AB007 | Bolt'', ''AB107 | Bolt Long'', ''CD007 | Nut''])],
         sem_rows = [(''Parts'', parts_sheet)]\<rparr> ''bolt long'' 2
     = Inr [(''Parts'', \<lparr>columns = [''_semantic_score'', ''id'', ''name''],
                         rows = [[Inl 9, Inr ''AB107'', Inr ''Bolt Long''],
                                 [Inl 5, Inr ''AB007'', Inr ''Bolt'']]\<rparr>)]
   \<and> int (length [[Inl 9, Inr ''AB107'', Inr ''Bolt Long''],
                    [Inl (5::int), Inr ''AB007'', Inr ''Bolt'']]) \<le> 2
   \<and> (\<exists>scores. map score_of [[Inl 9, Inr ''AB107'', Inr ''Bolt Long''],
                                [Inl (5::int), Inr ''AB007'', Inr ''Bolt'']] = map Some scores
          \<and> sorted (rev scores))"
proof -
  let ?sem = "\<lparr>vectorizers = [(''Parts'', [''AB007 | Bolt'', ''AB107 | Bolt Long'', ''CD007 | Nut''])],
         matrices = [(''Parts'', [''AB007 | Bolt'', ''AB107 | Bolt Long'', ''CD007 | Nut''])],
         sem_rows = [(''Parts'', parts_sheet)]\<rparr>"
  let ?res = "\<lparr>columns = [''_semantic_score'', ''id'', ''name''],
                         rows = [[Inl 9, Inr ''AB107'', Inr ''Bolt Long''],
                                 [Inl (5::int), Inr ''AB007'', Inr ''Bolt'']]\<rparr>"
  have a: "\<forall>sims. sorted (map (\<lambda>i. sims ! i) (argsort sample_sem_library sims))"
    using sample_argsort_sorted by blast
  have b: "(0::int) \<le> 2" by simp
  have c: "search sample_sem_library ?sem ''bolt long'' 2 = Inr [(''Parts'', ?res)]"
    by code_simp
  have d: "(''Parts'', ?res) \<in> set [(''Parts'', ?res)]" by simp
  from semantic_results_ranked[OF a c d] b c show ?thesis
    by simp
qed

subsection \<open>Loading a workbook\<close>

text \<open>\<^verbatim>\<open>build\<close> starts from the empty index: nothing of the index before it is kept.\<close>

lemma build_forgets_prior_index: "build L sheets lim sem = build L sheets lim sem'"
  by (simp add: build_def)

text \<open>
  C9. A workbook whose second sheet holds no term: \<^verbatim>\<open>fit_transform\<close> raises on it, the
  response is the failure, and yet the new workbook is in \<^verbatim>\<open>SHEETS\<close> with an index of its
  first sheet only. When the first sheet is the one that fails, a workbook loaded before is
  replaced by the new one and its index is emptied. When the file cannot be read, the
  workbook loaded before stays with its index.
\<close>

theorem failed_build_leaves_partial_index:
  "load_workbook sample_sem_library (Inr [(''Parts'', parts_sheet), (''Codes'', codes_sheet)])
      \<lparr>SHEETS = [], SEM = empty_index\<rparr>
     = (\<lparr>SHEETS = [(''Parts'', parts_sheet), (''Codes'', codes_sheet)],
         SEM = \<lparr>vectorizers = [(''Parts'', [''AB007 | Bolt'', ''AB107 | Bolt Long'', ''CD007 | Nut''])],
                 matrices = [(''Parts'', [''AB007 | Bolt'', ''AB107 | Bolt Long'', ''CD007 | Nut''])],
                 sem_rows = [(''Parts'', parts_sheet)]\<rparr>\<rparr>,
        Failed)
   \<and> load_workbook sample_sem_library (Inr [(''Codes'', codes_sheet), (''Parts'', parts_sheet)])
      \<lparr>SHEETS = [(''Parts'', parts_sheet)],
       SEM = \<lparr>vectorizers = [(''Parts'', [''AB007 | Bolt'', ''AB107 | Bolt Long'', ''CD007 | Nut''])],
               matrices = [(''Parts'', [''AB007 | Bolt'', ''AB107 | Bolt Long'', ''CD007 | Nut''])],
               sem_rows = [(''Parts'', parts_sheet)]\<rparr>\<rparr>
     = (\<lparr>SHEETS = [(''Codes'', codes_sheet), (''Parts'', parts_sheet)], SEM = empty_index\<rparr>, Failed)
   \<and> load_workbook sample_sem_library (Inl ValueError)
      \<lparr>SHEETS = [(''Parts'', parts_sheet)],
       SEM = \<lparr>vectorizers = [(''Parts'', [''AB007 | Bolt'', ''AB107 | Bolt Long'', ''CD007 | Nut''])],
               matrices = [(''Parts'', [''AB007 | Bolt'', ''AB107 | Bolt Long'', ''CD007 | Nut''])],
               sem_rows = [(''Parts'', parts_sheet)]\<rparr>\<rparr>
     = (\<lparr>SHEETS = [(''Parts'', parts_sheet)],
         SEM = \<lparr>vectorizers = [(''Parts'', [''AB007 | Bolt'', ''AB107 | Bolt Long'', ''CD007 | Nut''])],
                 matrices = [(''Parts'', [''AB007 | Bolt'', ''AB107 | Bolt Long'', ''CD007 | Nut''])],
                 sem_rows = [(''Parts'', parts_sheet)]\<rparr>\<rparr>,
        Failed)"
  by code_simp

text \<open>
  With a pandas whose \<^verbatim>\<open>apply\<close> gives a frame on a sheet without rows, a sheet that has
  only its header stops the build in the same way: the workbook is loaded, the index holds
  what came before that sheet.
\<close>

lemma header_only_sheet_stops_build:
  "load_workbook (sample_sem_library\<lparr>apply_empty := (\<lambda>df. Some AttributeError)\<rparr>)
      (Inr [(''Parts'', parts_sheet), (''Notes'', \<lparr>columns = [''note''], rows = []\<rparr>)])
      \<lparr>SHEETS = [], SEM = empty_index\<rparr>
     = (\<lparr>SHEETS = [(''Parts'', parts_sheet), (''Notes'', \<lparr>columns = [''note''], rows = []\<rparr>)],
         SEM = \<lparr>vectorizers = [(''Parts'', [''AB007 | Bolt'', ''AB107 | Bolt Long'', ''CD007 | Nut''])],
                 matrices = [(''Parts'', [''AB007 | Bolt'', ''AB107 | Bolt Long'', ''CD007 | Nut''])],
                 sem_rows = [(''Parts'', parts_sheet)]\<rparr>\<rparr>,
        Failed)"
  by code_simp

end
